theory Spec2Isabelle
  imports Main "HOL-Library.Word" "HOL-Library.AList" "HOL-Library.Sublist"
begin

section \<open>JavaScript strings\<close>

text \<open>
  A JavaScript string is a sequence of UTF-16 code units: \<open>length\<close>, \<open>slice\<close>,
  \<open>indexOf\<close>, \<open>lastIndexOf\<close> and \<open>text[i]\<close> all count code units. The literals of
  the source are ASCII except the two typographic closing quotes of \<open>closers\<close>, which
  are the single code units U+201D and U+2019.
\<close>

type_synonym jsstring = "16 word list"

definition lit :: "string \<Rightarrow> jsstring" where
  "lit s = map (\<lambda>c. of_nat (of_char c)) s"

definition backslash :: "16 word" where
  "backslash = 0x5C"

definition newline :: "16 word" where
  "newline = 0x0A"

text \<open>
  \<open>String.prototype.trim\<close> strips the code units of WhiteSpace and LineTerminator
  (ECMAScript 12.2 and 12.3) from both ends.
\<close>

definition white_space :: "16 word list" where
  "white_space =
     [0x09, 0x0A, 0x0B, 0x0C, 0x0D, 0x20, 0xA0, 0x1680,
      0x2000, 0x2001, 0x2002, 0x2003, 0x2004, 0x2005, 0x2006, 0x2007, 0x2008, 0x2009, 0x200A,
      0x2028, 0x2029, 0x202F, 0x205F, 0x3000, 0xFEFF]"

definition is_ws :: "16 word \<Rightarrow> bool" where
  "is_ws c \<longleftrightarrow> c \<in> set white_space"

definition trim :: "jsstring \<Rightarrow> jsstring" where
  "trim s = rev (dropWhile is_ws (rev (dropWhile is_ws s)))"

text \<open>\<open>s.lastIndexOf(c)\<close> for a one-unit \<open>c\<close>: the last index holding \<open>c\<close>, or \<open>-1\<close>.\<close>

fun lastIndexOf :: "jsstring \<Rightarrow> 16 word \<Rightarrow> int" where
  "lastIndexOf [] c = - 1"
| "lastIndexOf (x # xs) c =
     (let r = lastIndexOf xs c
      in if 0 \<le> r then r + 1 else if x = c then 0 else - 1)"

text \<open>\<open>s.repeat(n)\<close>.\<close>

definition repeat :: "jsstring \<Rightarrow> nat \<Rightarrow> jsstring" where
  "repeat s n = concat (replicate n s)"

text \<open>
  \<open>(s.match(re) || []).length\<close> for a global regular expression \<open>re\<close> that matches
  exactly the literal \<open>p\<close>: the scan goes left to right, and after a match at \<open>i\<close> it
  resumes at \<open>i + length p\<close>, so the matches counted do not overlap.
\<close>

function count_matches :: "jsstring \<Rightarrow> jsstring \<Rightarrow> nat" where
  "count_matches p s =
     (if p = [] \<or> s = [] then 0
      else if take (length p) s = p then Suc (count_matches p (drop (length p) s))
      else count_matches p (tl s))"
  by pat_completeness auto
termination
  by (relation "measure (\<lambda>(p, s). length s)") (auto simp: less_Suc_eq_le)

declare count_matches.simps [simp del]

section \<open>Output repair (background.ts)\<close>

subsection \<open>ensureCompleteSentences\<close>

definition terminals :: "16 word list" where
  "terminals = lit ''.!?''"

definition closers :: "16 word list" where
  "closers = [0x29, 0x5D, 0x7D, 0x201D, 0x2019, 0x22, 0x27]"

text \<open>The loop \<open>while (end < text.length && closers.includes(text[end])) end++\<close>.\<close>

function skip_closers :: "jsstring \<Rightarrow> nat \<Rightarrow> nat" where
  "skip_closers text e =
     (if e < length text \<and> text ! e \<in> set closers then skip_closers text (Suc e) else e)"
  by pat_completeness auto
termination
  by (relation "measure (\<lambda>(text, e). length text - e)") auto

declare skip_closers.simps [simp del]

text \<open>The loop over \<open>terminals\<close> that keeps the largest \<open>lastIndexOf\<close>.\<close>

definition last_terminal :: "jsstring \<Rightarrow> int" where
  "last_terminal text =
     fold (\<lambda>t last. let idx = lastIndexOf text t in if idx > last then idx else last)
       terminals (- 1)"

definition ensureCompleteSentences :: "jsstring \<Rightarrow> jsstring" where
  "ensureCompleteSentences text =
     (if text = [] then text
      else let last = last_terminal text
           in if last = - 1 then text
              else let e = skip_closers text (nat (last + 1))
                   in trim (take e text))"

subsection \<open>ensureLatexCompleteness\<close>

definition environments :: "jsstring list" where
  "environments =
     map lit [''itemize'', ''enumerate'', ''description'', ''equation'', ''align'',
              ''figure'', ''table'']"

text \<open>
  The literal matched by \<open>openPattern\<close>, and the literal matched by \<open>closePattern\<close>,
  which is also the close marker the function appends.
\<close>

definition beginTag :: "jsstring \<Rightarrow> jsstring" where
  "beginTag env = backslash # lit ''begin{'' @ env @ lit ''}''"

definition endTag :: "jsstring \<Rightarrow> jsstring" where
  "endTag env = backslash # lit ''end{'' @ env @ lit ''}''"

text \<open>One round of the loop \<open>for (const env of environments)\<close>.\<close>

definition close_env :: "jsstring \<Rightarrow> jsstring \<Rightarrow> jsstring" where
  "close_env env result =
     (let openCount = count_matches (beginTag env) result;
          closeCount = count_matches (endTag env) result
      in if openCount > closeCount
         then result @ newline # repeat (endTag env) (openCount - closeCount)
         else result)"

definition ensureLatexCompleteness :: "jsstring \<Rightarrow> jsstring" where
  "ensureLatexCompleteness text =
     (if text = [] then text else fold close_env environments text)"

text \<open>
  Output repair as the coaching handlers apply it: sentence completion, then
  environment completion.
\<close>

definition repair :: "jsstring \<Rightarrow> jsstring" where
  "repair text = ensureLatexCompleteness (ensureCompleteSentences text)"

section \<open>Model client (background.ts)\<close>

text \<open>
  The client reads two things of a parsed JSON value \<open>obj\<close>: \<open>obj?.message?.content\<close>
  and \<open>obj?.response\<close>. Each is a string of the wire protocol when present
  (\<open>onDelta\<close> takes a \<open>string\<close>) and \<open>None\<close> when it is \<open>undefined\<close> or \<open>null\<close>.
\<close>

record chat_json =
  message_content :: "jsstring option"
  response :: "jsstring option"

text \<open>
  What \<open>fetch\<close> resolves to: \<open>ok\<close> and \<open>status\<close>; \<open>json\<close> is what \<open>res.json()\<close>
  resolves to (\<open>None\<close> when it rejects); \<open>body\<close> is \<open>None\<close> for a null \<open>res.body\<close>
  and otherwise the chunks its reader delivers until \<open>done\<close>, each as the
  \<open>TextDecoder\<close> decodes it.
\<close>

record http_response =
  ok :: bool
  status :: nat
  json :: "chat_json option"
  body :: "jsstring list option"

datatype fetch_result = Rejected | Responded http_response

datatype error = FetchFailed | OllamaHTTP nat | BadJson

definition ollamaChat :: "fetch_result \<Rightarrow> error + jsstring" where
  "ollamaChat fr =
     (case fr of
        Rejected \<Rightarrow> Inl FetchFailed
      | Responded res \<Rightarrow>
          if \<not> ok res then Inl (OllamaHTTP (status res))
          else (case json res of
                  None \<Rightarrow> Inl BadJson
                | Some data \<Rightarrow>
                    Inr (case message_content data of None \<Rightarrow> [] | Some c \<Rightarrow> c)))"

text \<open>\<open>s.indexOf(c)\<close> for a one-unit \<open>c\<close>: the first index holding \<open>c\<close>, or \<open>-1\<close>.\<close>

fun indexOf :: "jsstring \<Rightarrow> 16 word \<Rightarrow> int" where
  "indexOf [] c = - 1"
| "indexOf (x # xs) c =
     (if x = c then 0 else let r = indexOf xs c in if 0 \<le> r then r + 1 else - 1)"

text \<open>\<open>obj?.message?.content || obj?.response || ''\<close>.\<close>

definition delta_of :: "chat_json \<Rightarrow> jsstring" where
  "delta_of obj =
     (case message_content obj of
        Some c \<Rightarrow> if c \<noteq> [] then c else (case response obj of Some r \<Rightarrow> r | None \<Rightarrow> [])
      | None \<Rightarrow> (case response obj of Some r \<Rightarrow> r | None \<Rightarrow> []))"

text \<open>
  The state of the streaming loop: the partial-line \<open>buffer\<close>, the accumulated text
  \<open>full\<close>, and the calls of \<open>onDelta\<close> made so far, oldest first.
\<close>

record stream_state =
  buffer :: jsstring
  full :: jsstring
  calls :: "jsstring list"

text \<open>
  The body of both \<open>try\<close> blocks: parse one trimmed, non-empty line; a line that
  \<open>JSON.parse\<close> rejects (\<open>None\<close>) is ignored, an empty delta is not delivered.
  \<open>JSON.parse\<close> is the platform's and is a parameter of the model.
\<close>

definition take_fragment ::
  "(jsstring \<Rightarrow> chat_json option) \<Rightarrow> jsstring \<Rightarrow> stream_state \<Rightarrow> stream_state" where
  "take_fragment parse line st =
     (case parse line of
        None \<Rightarrow> st
      | Some obj \<Rightarrow>
          let delta = delta_of obj
          in if delta \<noteq> [] then st\<lparr>full := full st @ delta, calls := calls st @ [delta]\<rparr>
             else st)"

text \<open>The inner loop \<open>while ((idx = buffer.indexOf('\n')) >= 0)\<close>.\<close>

function drain_lines ::
  "(jsstring \<Rightarrow> chat_json option) \<Rightarrow> stream_state \<Rightarrow> stream_state" where
  "drain_lines parse st =
     (let idx = indexOf (buffer st) newline
      in if 0 \<le> idx
         then let line = trim (take (nat idx) (buffer st));
                  st' = st\<lparr>buffer := drop (nat idx + 1) (buffer st)\<rparr>
              in if line = [] then drain_lines parse st'
                 else drain_lines parse (take_fragment parse line st')
         else st)"
  by pat_completeness auto
termination
proof (relation "measure (\<lambda>(parse, st). length (buffer st))")
  fix parse :: "jsstring \<Rightarrow> chat_json option" and st :: stream_state and idx line st'
  assume idx: "idx = indexOf (buffer st) newline" "0 \<le> idx"
    and st': "st' = st\<lparr>buffer := drop (nat idx + 1) (buffer st)\<rparr>"
  from idx have "buffer st \<noteq> []"
    by (cases "buffer st") auto
  with st' have less: "length (buffer st') < length (buffer st)"
    by simp
  then show "((parse, st'), (parse, st)) \<in> measure (\<lambda>(parse, st). length (buffer st))"
    by simp
  have "buffer (take_fragment parse line st') = buffer st'"
    by (simp add: take_fragment_def Let_def split: option.splits)
  with less show "((parse, take_fragment parse line st'), (parse, st))
      \<in> measure (\<lambda>(parse, st). length (buffer st))"
    by simp
qed simp

declare drain_lines.simps [simp del]

text \<open>The outer loop over \<open>reader.read()\<close>, one round for each chunk.\<close>

fun read_chunks ::
  "(jsstring \<Rightarrow> chat_json option) \<Rightarrow> jsstring list \<Rightarrow> stream_state \<Rightarrow> stream_state" where
  "read_chunks parse [] st = st"
| "read_chunks parse (v # vs) st =
     read_chunks parse vs (drain_lines parse (st\<lparr>buffer := buffer st @ v\<rparr>))"

text \<open>The remainder flushed after the last chunk.\<close>

definition flush_remainder ::
  "(jsstring \<Rightarrow> chat_json option) \<Rightarrow> stream_state \<Rightarrow> stream_state" where
  "flush_remainder parse st =
     (if trim (buffer st) \<noteq> [] then take_fragment parse (trim (buffer st)) st else st)"

text \<open>
  \<open>ollamaChatStream\<close> returns the calls of \<open>onDelta\<close> it made, in order, and either the
  error it throws or the string it resolves to.
\<close>

definition ollamaChatStream ::
  "(jsstring \<Rightarrow> chat_json option) \<Rightarrow> fetch_result \<Rightarrow> jsstring list \<times> (error + jsstring)" where
  "ollamaChatStream parse fr =
     (case fr of
        Rejected \<Rightarrow> ([], Inl FetchFailed)
      | Responded res \<Rightarrow>
          if \<not> ok res \<or> body res = None then ([], Inl (OllamaHTTP (status res)))
          else let st = flush_remainder parse
                          (read_chunks parse (the (body res))
                             \<lparr>buffer = [], full = [], calls = []\<rparr>)
               in (calls st, Inr (full st)))"

section \<open>Coaching flows (background.ts)\<close>

definition FALLBACK :: jsstring where
  "FALLBACK = lit ''No substantial issues detected. Keep going!''"

text \<open>\<open>(out && out.trim()) ? out : 'No substantial issues detected. Keep going!'\<close>.\<close>

definition safeOut :: "jsstring \<Rightarrow> jsstring" where
  "safeOut out = (if out \<noteq> [] \<and> trim out \<noteq> [] then out else FALLBACK)"

definition finalOut :: "jsstring \<Rightarrow> jsstring" where
  "finalOut out = ensureLatexCompleteness (ensureCompleteSentences (safeOut out))"

text \<open>
  What the \<open>coach\<close> and \<open>coach:expand\<close> handlers pass to \<open>sendResponse\<close>:
  \<open>{ok: true, text: finalOut}\<close> or \<open>{ok: false, error}\<close>. The two handlers differ in the
  prompt and token cap of the request only.
\<close>

datatype coach_reply = CoachText jsstring | CoachError error

definition coach_handler :: "fetch_result \<Rightarrow> coach_reply" where
  "coach_handler fr =
     (case ollamaChat fr of Inl e \<Rightarrow> CoachError e | Inr out \<Rightarrow> CoachText (finalOut out))"

definition coach_expand_handler :: "fetch_result \<Rightarrow> coach_reply" where
  "coach_expand_handler fr =
     (case ollamaChat fr of Inl e \<Rightarrow> CoachError e | Inr out \<Rightarrow> CoachText (finalOut out))"

section \<open>Summary cache (background.ts)\<close>

text \<open>
  \<open>simpleHash\<close>: \<open>h = ((h << 5) - h) + s.charCodeAt(i); h |= 0\<close> keeps \<open>h\<close> a 32-bit
  integer, and \<open>String(h >>> 0)\<close> is the decimal numeral of its unsigned value. The
  model keeps the 32-bit value for the numeral.
\<close>

definition simpleHash :: "jsstring \<Rightarrow> 32 word" where
  "simpleHash s = fold (\<lambda>c h. (push_bit 5 h - h) + ucast c) s 0"

record SummaryEntry =
  sectionKey :: "32 word"
  entry_text :: jsstring
  updatedAt :: int

text \<open>
  The table \<open>Record<string, SummaryEntry>\<close> of one document, as an association list.
  Its keys are numerals of unsigned 32-bit values, so \<open>Object.keys\<close> and
  \<open>Object.values\<close> enumerate it in ascending order of the key.
\<close>

type_synonym summaries = "(32 word \<times> SummaryEntry) list"

definition object_keys :: "summaries \<Rightarrow> 32 word list" where
  "object_keys m = map fst (sort_key (\<lambda>(k, e). unat k) m)"

definition object_values :: "summaries \<Rightarrow> SummaryEntry list" where
  "object_values m = map snd (sort_key (\<lambda>(k, e). unat k) m)"

text \<open>\<open>entries.sort((a,b) => b.updatedAt - a.updatedAt)\<close>; the sort is stable.\<close>

definition sort_recent :: "SummaryEntry list \<Rightarrow> SummaryEntry list" where
  "sort_recent entries = sort_key (\<lambda>e. - updatedAt e) entries"

text \<open>The matches of \<open>/[a-z0-9]{3,}/g\<close>, left to right.\<close>

definition alnum :: "16 word \<Rightarrow> bool" where
  "alnum c \<longleftrightarrow> (0x61 \<le> c \<and> c \<le> 0x7A) \<or> (0x30 \<le> c \<and> c \<le> 0x39)"

function regex_tokens :: "jsstring \<Rightarrow> jsstring list" where
  "regex_tokens s =
     (if s = [] then []
      else let run = takeWhile alnum s
           in if 3 \<le> length run then run # regex_tokens (drop (length run) s)
              else regex_tokens (tl s))"
  by pat_completeness auto
termination
  by (relation "measure length") (auto simp: Let_def intro: diff_less)

declare regex_tokens.simps [simp del]

text \<open>
  \<open>new Set(s.toLowerCase().match(/[a-z0-9]{3,}/g) || [])\<close>, in insertion order.
  \<open>toLowerCase\<close> is the platform's (it follows the Unicode case tables) and is a
  parameter of the model.
\<close>

definition tokenize :: "(jsstring \<Rightarrow> jsstring) \<Rightarrow> jsstring \<Rightarrow> jsstring list" where
  "tokenize lower s = remdups (regex_tokens (lower s))"

definition score :: "jsstring list \<Rightarrow> jsstring list \<Rightarrow> int" where
  "score sel t = int (length (filter (\<lambda>w. w \<in> set t) sel))"

definition pick_step ::
  "(jsstring \<Rightarrow> jsstring) \<Rightarrow> jsstring list \<Rightarrow> SummaryEntry \<Rightarrow>
   SummaryEntry option \<times> int \<Rightarrow> SummaryEntry option \<times> int" where
  "pick_step lower sel e acc =
     (let t = tokenize lower (entry_text e);
          sc = score sel t
      in if sc > snd acc then (Some e, sc) else acc)"

definition pickBestSummary ::
  "(jsstring \<Rightarrow> jsstring) \<Rightarrow> jsstring \<Rightarrow> summaries \<Rightarrow> SummaryEntry option" where
  "pickBestSummary lower provided m =
     (let entries = object_values m
      in if length entries = 0 then None
         else let sel = tokenize lower provided
              in if length sel = 0 then Some (hd (sort_recent entries))
                 else (case fst (fold (pick_step lower sel) entries (None, - 1)) of
                         Some best \<Rightarrow> Some best
                       | None \<Rightarrow> Some (hd (sort_recent entries))))"

text \<open>
  \<open>maybeUpdateSummary\<close> on the table of the active document: \<open>fr\<close> is what the
  summarisation request would fetch, \<open>now\<close> is \<open>Date.now()\<close>; the result is the table
  in storage afterwards.
\<close>

definition maxEntries :: nat where
  "maxEntries = 12"

definition cached :: "summaries \<Rightarrow> 32 word \<Rightarrow> bool" where
  "cached m k \<longleftrightarrow> (case map_of m k of None \<Rightarrow> False | Some e \<Rightarrow> entry_text e \<noteq> [])"

definition cap_entries :: "summaries \<Rightarrow> summaries" where
  "cap_entries m =
     (let entries = sort_recent (object_values m)
      in if length entries > maxEntries
         then let keepSet = map sectionKey (take maxEntries entries)
              in fold (\<lambda>key m'. if key \<notin> set keepSet then AList.delete key m' else m')
                   (object_keys m) m
         else m)"

definition maybeUpdateSummary ::
  "summaries \<Rightarrow> jsstring \<Rightarrow> fetch_result \<Rightarrow> int \<Rightarrow> summaries" where
  "maybeUpdateSummary m sampleText fr now =
     (let key = simpleHash (take 800 sampleText)
      in if cached m key then m
         else let summary = (case ollamaChat fr of Inl e \<Rightarrow> [] | Inr s \<Rightarrow> s)
              in if summary \<noteq> [] \<and> trim summary \<noteq> []
                 then cap_entries
                        (AList.update key
                           \<lparr>sectionKey = key, entry_text = trim summary, updatedAt = now\<rparr> m)
                 else m)"

section \<open>On-demand and scheduled coaching (background.ts)\<close>

text \<open>
  The messages a flow sends to the document view, oldest first, and the reply of
  \<open>run-now\<close>. \<open>visible\<close> and \<open>whole\<close> are \<open>sample?.text\<close> of the two \<open>grabText\<close>
  requests (\<open>None\<close> when the request fails or carries no text).
\<close>

datatype status_text =
  Scanning | ReadChars nat bool | Thinking | ErrorStatus error | ModelUnavailable
  | SummaryCached

datatype view_msg = CoachStatus status_text | AnswerDelta jsstring | CoachAnswer jsstring

datatype run_reply = NoTab | NoText | RunOk | RunError error

definition has_text :: "jsstring option \<Rightarrow> bool" where
  "has_text t \<longleftrightarrow> (case t of None \<Rightarrow> False | Some s \<Rightarrow> s \<noteq> [])"

text \<open>
  What \<open>maybeUpdateSummary\<close> sends to the view: in the branch that writes the table, the
  status \<open>Summary cached\<close>, when an active tab is found at that moment (\<open>tab_then\<close>).
\<close>

definition summary_status ::
  "summaries \<Rightarrow> jsstring \<Rightarrow> fetch_result \<Rightarrow> bool \<Rightarrow> view_msg list" where
  "summary_status m sampleText sfr tab_then =
     (let key = simpleHash (take 800 sampleText)
      in if cached m key then []
         else let summary = (case ollamaChat sfr of Inl e \<Rightarrow> [] | Inr s \<Rightarrow> s)
              in if summary \<noteq> [] \<and> trim summary \<noteq> []
                 then (if tab_then then [CoachStatus SummaryCached] else [])
                 else [])"

text \<open>
  Both flows call \<open>maybeUpdateSummary(sample.text)\<close> without awaiting it, so what it sends
  reaches the view somewhere among the messages the flow sends from then on:
  \<open>insert_at n xs ys\<close> puts \<open>xs\<close> after the first \<open>n\<close> messages of \<open>ys\<close> (after all of
  them when \<open>n\<close> is larger).
\<close>

definition insert_at :: "nat \<Rightarrow> 'a list \<Rightarrow> 'a list \<Rightarrow> 'a list" where
  "insert_at n xs ys = take n ys @ xs @ drop n ys"

text \<open>
  The \<open>run-now\<close> handler. \<open>m\<close> is the summary table of the document, \<open>sfr\<close> what the
  summarisation request fetches, \<open>tab_then\<close> whether an active tab is found when the
  update ends, and \<open>arrives\<close> how many of the later messages the view has received
  when the status of the update arrives.
\<close>

definition run_now ::
  "(jsstring \<Rightarrow> chat_json option) \<Rightarrow> bool \<Rightarrow> jsstring option \<Rightarrow> jsstring option \<Rightarrow>
   fetch_result \<Rightarrow> summaries \<Rightarrow> fetch_result \<Rightarrow> bool \<Rightarrow> nat \<Rightarrow>
   view_msg list \<times> run_reply" where
  "run_now parse tab visible whole fr m sfr tab_then arrives =
     (if \<not> tab then ([], NoTab)
      else let sample = (if has_text visible then visible else whole)
           in if \<not> has_text sample then ([CoachStatus Scanning], NoText)
              else let before = [CoachStatus Scanning,
                                 CoachStatus (ReadChars (length (the sample)) (has_text visible))];
                       cache_status = summary_status m (the sample) sfr tab_then;
                       (deltas, outcome) = ollamaChatStream parse fr;
                       streamedOutput = concat deltas
                   in (case outcome of
                         Inl e \<Rightarrow>
                           (before @ insert_at arrives cache_status
                              (CoachStatus Thinking # map AnswerDelta deltas
                                 @ [CoachStatus (ErrorStatus e)]),
                            RunError e)
                       | Inr _ \<Rightarrow>
                           (before @ insert_at arrives cache_status
                              (CoachStatus Thinking # map AnswerDelta deltas
                                 @ [CoachAnswer (finalOut streamedOutput)]),
                            RunOk)))"

text \<open>
  The \<open>onAlarm\<close> listener; \<open>name\<close> is \<open>alarm.name\<close>, \<open>is_paused\<close> the stored flag, the
  last four arguments are those of \<open>run_now\<close>.
\<close>

definition alarm_tick ::
  "string \<Rightarrow> bool \<Rightarrow> bool \<Rightarrow> jsstring option \<Rightarrow> jsstring option \<Rightarrow> fetch_result \<Rightarrow>
   summaries \<Rightarrow> fetch_result \<Rightarrow> bool \<Rightarrow> nat \<Rightarrow> view_msg list" where
  "alarm_tick name is_paused tab visible whole fr m sfr tab_then arrives =
     (if name \<noteq> ''writetank:tick'' then []
      else if is_paused then []
      else if \<not> tab then []
      else let sample = (if has_text visible then visible else whole)
           in if \<not> has_text sample then [CoachStatus Scanning]
              else let before = [CoachStatus Scanning,
                                 CoachStatus (ReadChars (length (the sample)) (has_text visible))];
                       cache_status = summary_status m (the sample) sfr tab_then
                   in (case ollamaChat fr of
                         Inl e \<Rightarrow>
                           before @ insert_at arrives cache_status
                             [CoachStatus Thinking, CoachStatus ModelUnavailable]
                       | Inr out \<Rightarrow>
                           before @ insert_at arrives cache_status
                             [CoachStatus Thinking, CoachAnswer (finalOut out)]))"

section \<open>Settings and scheduler (background.ts)\<close>

record Settings =
  endpoint :: jsstring
  model :: jsstring
  intervalMin :: int
  paused :: bool

definition DEFAULTS :: Settings where
  "DEFAULTS = \<lparr>endpoint = lit ''http://localhost:11434'', model = lit ''gpt-oss:20b'',
                intervalMin = 5, paused = True\<rparr>"

text \<open>A \<open>Partial<Settings>\<close>: the stored overrides, and the patch of \<open>setSettings\<close>.\<close>

record PartialSettings =
  p_endpoint :: "jsstring option"
  p_model :: "jsstring option"
  p_intervalMin :: "int option"
  p_paused :: "bool option"

text \<open>\<open>{...base, ...patch}\<close>.\<close>

definition spread :: "Settings \<Rightarrow> PartialSettings \<Rightarrow> Settings" where
  "spread base patch =
     \<lparr>endpoint = (case p_endpoint patch of None \<Rightarrow> endpoint base | Some v \<Rightarrow> v),
      model = (case p_model patch of None \<Rightarrow> model base | Some v \<Rightarrow> v),
      intervalMin = (case p_intervalMin patch of None \<Rightarrow> intervalMin base | Some v \<Rightarrow> v),
      paused = (case p_paused patch of None \<Rightarrow> paused base | Some v \<Rightarrow> v)\<rparr>"

text \<open>
  The background state: the settings keys of \<open>chrome.storage.local\<close> and the alarms of
  \<open>chrome.alarms\<close>, which are keyed by name (an alarm created under a name replaces
  the one of that name), each with its \<open>periodInMinutes\<close>.
\<close>

record background =
  storage :: PartialSettings
  alarms :: "string \<rightharpoonup> int"

definition getSettings :: "background \<Rightarrow> Settings" where
  "getSettings st = spread DEFAULTS (storage st)"

definition ensureAlarm :: "background \<Rightarrow> background" where
  "ensureAlarm st =
     (let s = getSettings st;
          st1 = st\<lparr>alarms := (alarms st)(''writetank:tick'' := None)\<rparr>
      in if \<not> paused s \<and> intervalMin s > 0
         then st1\<lparr>alarms := (alarms st1)(''writetank:tick'' \<mapsto> intervalMin s)\<rparr>
         else st1)"

definition setSettings :: "PartialSettings \<Rightarrow> background \<Rightarrow> background" where
  "setSettings patch st =
     (let prev = getSettings st;
          new = spread prev patch
      in ensureAlarm
           (st\<lparr>storage := \<lparr>p_endpoint = Some (endpoint new), p_model = Some (model new),
                             p_intervalMin = Some (intervalMin new),
                             p_paused = Some (paused new)\<rparr>\<rparr>))"

section \<open>Text source (content script)\<close>

text \<open>
  What a selection accessor of the page gives: it is missing, the call throws, or it
  returns a string (a \<open>null\<close> or \<open>undefined\<close> result counts as the empty string, both
  being falsy).
\<close>

datatype probe = Missing | Throws | Gives jsstring

datatype grab_mode = All | Visible

text \<open>
  The page as \<open>grabEditorText\<close> reads it: \<open>window.getSelection()\<close> (\<open>None\<close> when
  null, else its \<open>toString()\<close>); \<open>getSelection()\<close> of the CodeMirror editor object;
  the same for each element of the alternative selector; \<open>getSelectedText()\<close> of the
  Ace editor; for each content-editable element the \<open>toString()\<close> of the active range
  (\<open>Missing\<close> when there is no range or the element does not contain it); and the
  text that the editor-content branch (CodeMirror lines, Ace rows, editor-like elements
  or \<open>document.body.innerText\<close>) reads for a mode.
\<close>

record page =
  window_selection :: "jsstring option"
  cm_selection :: probe
  cm_alt_selections :: "probe list"
  ace_selection :: probe
  editable_ranges :: "probe list"
  editor_content :: "grab_mode \<Rightarrow> jsstring"

text \<open>\<open>if (x && x.trim()) sel = x.trim()\<close> inside its \<open>try\<close>.\<close>

definition probe_sel :: "probe \<Rightarrow> jsstring" where
  "probe_sel p = (case p of Gives s \<Rightarrow> (if s \<noteq> [] \<and> trim s \<noteq> [] then trim s else []) | _ \<Rightarrow> [])"

text \<open>The loops over elements: the first element that gives a selection ends the loop.\<close>

fun first_sel :: "probe list \<Rightarrow> jsstring" where
  "first_sel [] = []"
| "first_sel (p # ps) = (if probe_sel p \<noteq> [] then probe_sel p else first_sel ps)"

definition find_selection :: "page \<Rightarrow> jsstring" where
  "find_selection pg =
     (let sel = (case window_selection pg of
                   None \<Rightarrow> []
                 | Some s \<Rightarrow> if trim s \<noteq> [] then trim s else []);
          sel = (if sel = [] then probe_sel (cm_selection pg) else sel);
          sel = (if sel = [] then first_sel (cm_alt_selections pg) else sel);
          sel = (if sel = [] then probe_sel (ace_selection pg) else sel);
          sel = (if sel = [] then first_sel (editable_ranges pg) else sel)
      in sel)"

text \<open>\<open>text.replace(/\r\n/g, '\n').replace(/\r/g, '\n')\<close>.\<close>

fun crlf_to_lf :: "jsstring \<Rightarrow> jsstring" where
  "crlf_to_lf (c # d # s) =
     (if c = 0x0D \<and> d = 0x0A then 0x0A # crlf_to_lf s else c # crlf_to_lf (d # s))"
| "crlf_to_lf s = s"

definition cr_to_lf :: "jsstring \<Rightarrow> jsstring" where
  "cr_to_lf s = map (\<lambda>c. if c = 0x0D then 0x0A else c) s"

record text_sample =
  selection :: jsstring
  sample_text :: jsstring
  wasTruncated :: bool

definition grabEditorText :: "bool \<Rightarrow> grab_mode \<Rightarrow> page \<Rightarrow> text_sample" where
  "grabEditorText preferSelection mode pg =
     (let sel = find_selection pg;
          raw = (if preferSelection then (if length sel > 0 then sel else [])
                 else editor_content pg mode);
          cleaned = trim (cr_to_lf (crlf_to_lf raw));
          max = 1500;
          truncated = (length cleaned > max)
      in \<lparr>selection = sel,
          sample_text = (if truncated then take max cleaned else cleaned),
          wasTruncated = truncated\<rparr>)"

section \<open>Auxiliary notions for the proofs\<close>

text \<open>
  An environment name is plain when it holds no backslash, newline, closing brace or
  terminal punctuation; a text is balanced for an environment when its open markers do
  not outnumber its close markers; a tail piece is what environment completion appends.
\<close>

definition plain_name :: "jsstring \<Rightarrow> bool" where
  "plain_name e \<longleftrightarrow> set e \<inter> ({backslash, newline, 0x7D} \<union> set terminals) = {}"

definition balanced :: "jsstring \<Rightarrow> jsstring \<Rightarrow> bool" where
  "balanced r e \<longleftrightarrow> count_matches (beginTag e) r \<le> count_matches (endTag e) r"

definition tail_piece :: "jsstring \<Rightarrow> bool" where
  "tail_piece a \<longleftrightarrow> (a = [] \<or> hd a = newline) \<and> set a \<inter> set terminals = {}"

text \<open>The shape of a text that has terminal punctuation.\<close>

definition cut_at :: "jsstring \<Rightarrow> jsstring \<Rightarrow> 16 word \<Rightarrow> jsstring \<Rightarrow> jsstring \<Rightarrow> bool" where
  "cut_at s pre t cl rest \<longleftrightarrow>
     s = pre @ t # cl @ rest \<and> t \<in> set terminals \<and> set (cl @ rest) \<inter> set terminals = {} \<and>
     set cl \<subseteq> set closers \<and> (rest = [] \<or> hd rest \<notin> set closers)"

text \<open>A probe gives no selection when it is missing, throws, or gives only white space.\<close>

definition blank_probe :: "probe \<Rightarrow> bool" where
  "blank_probe p \<longleftrightarrow> (case p of Gives s \<Rightarrow> trim s = [] | _ \<Rightarrow> True)"

text \<open>
  The wire protocol in the spec's words: the body is newline-delimited fragments, each
  parsed on its own; \<open>split_nl\<close> is \<open>s.split('\n')\<close>, \<open>line_deltas\<close> gives the delta
  of a line when the line is not blank, parses and carries a non-empty delta, and
  \<open>wire_deltas\<close> collects the deltas of a whole body in the order of its lines.
\<close>

fun split_nl :: "jsstring \<Rightarrow> jsstring list" where
  "split_nl [] = [[]]"
| "split_nl (c # cs) =
     (if c = newline then [] # split_nl cs
      else (case split_nl cs of [] \<Rightarrow> [[c]] | l # ls \<Rightarrow> (c # l) # ls))"

definition line_deltas :: "(jsstring \<Rightarrow> chat_json option) \<Rightarrow> jsstring \<Rightarrow> jsstring list" where
  "line_deltas parse l =
     (if trim l = [] then []
      else (case parse (trim l) of
              None \<Rightarrow> []
            | Some obj \<Rightarrow> if delta_of obj = [] then [] else [delta_of obj]))"

definition wire_deltas :: "(jsstring \<Rightarrow> chat_json option) \<Rightarrow> jsstring \<Rightarrow> jsstring list" where
  "wire_deltas parse s = concat (map (line_deltas parse) (split_nl s))"

text \<open>
  Lines of a sample stream and what \<open>JSON.parse\<close> makes of them: three fragments with
  the contents \<open>\para\<close>, \<open>graph{Structure}\<close> and \<open> Good.\<close>, and the closing fragment of
  a stream, whose content is empty. \<open>sample_parse\<close> agrees with \<open>JSON.parse\<close> on these
  four lines and on the malformed line \<open>{"mess\<close>; it is used on no other line.
\<close>

definition content_line :: "jsstring \<Rightarrow> jsstring" where
  \<open>content_line escaped = lit ''{"message":{"content":"'' @ escaped @ lit ''"}}''\<close>

definition done_line :: jsstring where
  \<open>done_line = lit ''{"message":{"content":""},"done":true}''\<close>

definition sample_parse :: "jsstring \<Rightarrow> chat_json option" where
  "sample_parse l =
     (if l = content_line ([backslash, backslash] @ lit ''para'')
      then Some \<lparr>message_content = Some (backslash # lit ''para''), response = None\<rparr>
      else if l = content_line (lit ''graph{Structure}'')
      then Some \<lparr>message_content = Some (lit ''graph{Structure}''), response = None\<rparr>
      else if l = content_line (lit '' Good.'')
      then Some \<lparr>message_content = Some (lit '' Good.''), response = None\<rparr>
      else if l = done_line
      then Some \<lparr>message_content = Some [], response = None\<rparr>
      else None)"

text \<open>The texts of the \<open>coach:answer\<close> messages of a message list, oldest first.\<close>

fun answers :: "view_msg list \<Rightarrow> jsstring list" where
  "answers [] = []"
| "answers (CoachAnswer t # ms) = t # answers ms"
| "answers (_ # ms) = answers ms"

text \<open>
  \<open>blank_parse\<close> agrees with \<open>JSON.parse\<close> on the line \<open>{"message":{"content":"  "}}\<close>,
  a fragment whose content is two spaces; it is used on no other line.
\<close>

definition blank_parse :: "jsstring \<Rightarrow> chat_json option" where
  "blank_parse l =
     (if l = content_line (lit ''  '')
      then Some \<lparr>message_content = Some (lit ''  ''), response = None\<rparr>
      else None)"

text \<open>
  \<open>first_best f xs x\<close>: \<open>x\<close> is the first element of \<open>xs\<close> at which \<open>f\<close> is largest.
\<close>

definition first_best :: "('a \<Rightarrow> int) \<Rightarrow> 'a list \<Rightarrow> 'a \<Rightarrow> bool" where
  "first_best f xs x \<longleftrightarrow>
     (\<exists>i<length xs. x = xs ! i \<and> (\<forall>j<length xs. f (xs ! j) \<le> f x) \<and> (\<forall>j<i. f (xs ! j) < f x))"

text \<open>
  A table is keyed when its keys are distinct and every entry sits under its own
  \<open>sectionKey\<close> with a non-empty text, as \<open>maybeUpdateSummary\<close> writes them; it is well
  formed when, besides, it holds at most \<open>maxEntries\<close> entries.
\<close>

definition keyed :: "summaries \<Rightarrow> bool" where
  "keyed m \<longleftrightarrow>
     distinct (map fst m) \<and> (\<forall>(k, e)\<in>set m. sectionKey e = k \<and> entry_text e \<noteq> [])"

definition wf_table :: "summaries \<Rightarrow> bool" where
  "wf_table m \<longleftrightarrow> keyed m \<and> length m \<le> maxEntries"

text \<open>
  A full table for the examples: twelve entries under the keys 1 to 12, the entry
  under key \<open>i\<close> updated at time \<open>i\<close>.
\<close>

definition sample_entry :: "int \<Rightarrow> 32 word \<times> SummaryEntry" where
  "sample_entry i =
     (word_of_int i, \<lparr>sectionKey = word_of_int i, entry_text = lit ''s'', updatedAt = i\<rparr>)"

definition sample_table :: summaries where
  "sample_table = map sample_entry [1, 2, 3, 4, 5, 6, 7, 8, 9, 10, 11, 12]"

section \<open>Output repair: proofs\<close>

lemma take_eq_prefix: "take (length p) s = p \<longleftrightarrow> prefix p s"
  by (metis append_take_drop_id prefix_def append_eq_conv_conj)

lemma count_matches_Nil [simp]: "count_matches p [] = 0"
  by (simp add: count_matches.simps)

lemma count_matches_hit:
  "p \<noteq> [] \<Longrightarrow> count_matches p (p @ t) = Suc (count_matches p t)"
  by (subst count_matches.simps) simp

lemma count_matches_miss:
  "\<not> prefix p (x # s) \<Longrightarrow> count_matches p (x # s) = count_matches p s"
proof (cases "p = []")
  case True
  then show ?thesis by (simp add: count_matches.simps)
next
  case False
  assume np: "\<not> prefix p (x # s)"
  then have "take (length p) (x # s) \<noteq> p"
    using take_eq_prefix by blast
  with False show ?thesis
    by (subst count_matches.simps) (simp del: take_Suc_Cons)
qed

lemma count_matches_skip:
  "p \<noteq> [] \<Longrightarrow> hd p \<notin> set s \<Longrightarrow> count_matches p (s @ t) = count_matches p t"
proof (induction s)
  case Nil
  then show ?case by simp
next
  case (Cons x s)
  from Cons.prems have "\<not> prefix p (x # s @ t)"
    by (cases p) auto
  with Cons show ?case
    by (simp add: count_matches_miss)
qed

lemma prefix_sep:
  assumes "c \<notin> set p" and "prefix p (s @ c # t)"
  shows "prefix p s"
proof -
  from assms(2) obtain r where r: "s @ c # t = p @ r"
    by (auto simp: prefix_def)
  have "length p \<le> length s"
  proof (rule ccontr)
    assume "\<not> length p \<le> length s"
    then have "length s < length p" by simp
    then have "(p @ r) ! length s = p ! length s"
      by (simp add: nth_append)
    moreover have "(s @ c # t) ! length s = c"
      by simp
    ultimately have "p ! length s = c"
      using r by simp
    with \<open>length s < length p\<close> assms(1) show False
      by (metis nth_mem)
  qed
  with r show ?thesis
    by (metis prefix_def append_eq_append_conv_if append_take_drop_id)
qed

lemma count_matches_sep:
  "c \<notin> set p \<Longrightarrow>
   count_matches p (s @ c # t) = count_matches p s + count_matches p t"
proof (induction p s rule: count_matches.induct)
  case (1 p s)
  show ?case
  proof (cases "p = []")
    case True
    then show ?thesis by (simp add: count_matches.simps)
  next
    case pne: False
    show ?thesis
    proof (cases s)
      case Nil
      from pne 1(3) have "\<not> prefix p (c # t)"
        by (cases p) auto
      with Nil show ?thesis
        by (simp add: count_matches_miss)
    next
      case (Cons x xs)
      then have sne: "\<not> (p = [] \<or> s = [])"
        using pne by simp
      show ?thesis
      proof (cases "prefix p s")
        case True
        then obtain r where r: "s = p @ r"
          by (auto simp: prefix_def)
        have tk: "take (length p) s = p"
          using True by (simp add: take_eq_prefix)
        have "count_matches p (r @ c # t) = count_matches p r + count_matches p t"
          using 1(1) [OF sne tk 1(3)] r by simp
        then have "count_matches p (p @ r @ c # t) = count_matches p (p @ r) + count_matches p t"
          using pne count_matches_hit [of p "r @ c # t"] count_matches_hit [of p r] by simp
        with r show ?thesis
          by simp
      next
        case False
        with 1(3) have np: "\<not> prefix p (x # xs @ c # t)"
          using prefix_sep [of c p s t] Cons by auto
        have tk: "take (length p) s \<noteq> p"
          using False by (simp add: take_eq_prefix)
        have "count_matches p (xs @ c # t) = count_matches p xs + count_matches p t"
          using 1(2) [OF sne tk 1(3)] Cons by simp
        moreover have "count_matches p (x # xs @ c # t) = count_matches p (xs @ c # t)"
          using np by (rule count_matches_miss)
        moreover have "count_matches p (x # xs) = count_matches p xs"
          using False Cons by (simp add: count_matches_miss)
        ultimately show ?thesis
          using Cons by simp
      qed
    qed
  qed
qed

lemma environments_plain: "e \<in> set environments \<Longrightarrow> plain_name e"
  by (auto simp: environments_def plain_name_def lit_def backslash_def newline_def terminals_def)

lemma newline_notin_tags:
  "plain_name e \<Longrightarrow> newline \<notin> set (beginTag e) \<and> newline \<notin> set (endTag e)"
  by (auto simp: plain_name_def beginTag_def endTag_def lit_def backslash_def newline_def)

lemma terminals_notin_endTag:
  "plain_name e \<Longrightarrow> c \<in> set terminals \<Longrightarrow> c \<notin> set (endTag e)"
  by (auto simp: plain_name_def endTag_def lit_def backslash_def terminals_def)

lemma tags_nonempty [simp]: "beginTag e \<noteq> []" "endTag e \<noteq> []"
  by (simp_all add: beginTag_def endTag_def)

lemma hd_tags [simp]: "hd (beginTag e) = backslash" "hd (endTag e) = backslash"
  by (simp_all add: beginTag_def endTag_def)

lemma backslash_notin_tl_endTag:
  "plain_name e \<Longrightarrow> backslash \<notin> set (tl (endTag e))"
  by (auto simp: plain_name_def endTag_def lit_def backslash_def)

lemma beginTag_not_prefix_endTag: "\<not> prefix (beginTag e) (endTag e' @ t)"
  by (simp add: beginTag_def endTag_def lit_def)

lemma prefix_closed_name:
  "c \<notin> set a \<Longrightarrow> c \<notin> set b \<Longrightarrow> prefix (a @ [c]) (b @ c # t) \<Longrightarrow> a = b"
proof (induction a arbitrary: b)
  case Nil
  then show ?case by (cases b) auto
next
  case (Cons x a)
  then show ?case by (cases b) auto
qed

lemma endTag_not_prefix_endTag:
  assumes "plain_name e" "plain_name e'" "e \<noteq> e'"
  shows "\<not> prefix (endTag e) (endTag e' @ t)"
proof
  assume "prefix (endTag e) (endTag e' @ t)"
  then have "prefix (e @ [0x7D]) (e' @ 0x7D # t)"
    by (simp add: endTag_def lit_def)
  moreover have "0x7D \<notin> set e" "0x7D \<notin> set e'"
    using assms(1,2) by (auto simp: plain_name_def)
  ultimately have "e = e'"
    by (rule prefix_closed_name [rotated 2])
  with assms(3) show False by simp
qed

lemma count_matches_past_endTag:
  assumes "plain_name e'" "q \<noteq> []" "hd q = backslash" "\<not> prefix q (endTag e' @ t)"
  shows "count_matches q (endTag e' @ t) = count_matches q t"
proof -
  obtain p' where p': "endTag e' = backslash # p'"
    by (simp add: endTag_def)
  with assms(1) have "backslash \<notin> set p'"
    using backslash_notin_tl_endTag [of e'] by simp
  with assms(2,3) have "count_matches q (p' @ t) = count_matches q t"
    by (simp add: count_matches_skip)
  moreover have "count_matches q (backslash # p' @ t) = count_matches q (p' @ t)"
    using assms(4) p' by (simp add: count_matches_miss)
  ultimately show ?thesis
    using p' by simp
qed

lemma count_endTag_repeat: "count_matches (endTag e) (repeat (endTag e) n) = n"
  by (induction n) (simp_all add: repeat_def count_matches_hit)

lemma count_beginTag_repeat:
  "plain_name e' \<Longrightarrow> count_matches (beginTag e) (repeat (endTag e') n) = 0"
  by (induction n)
     (simp_all add: repeat_def count_matches_past_endTag beginTag_not_prefix_endTag)

lemma count_other_endTag_repeat:
  "plain_name e \<Longrightarrow> plain_name e' \<Longrightarrow> e \<noteq> e' \<Longrightarrow>
   count_matches (endTag e) (repeat (endTag e') n) = 0"
  by (induction n)
     (simp_all add: repeat_def count_matches_past_endTag endTag_not_prefix_endTag)

lemma count_beginTag_close_env:
  "plain_name e \<Longrightarrow> plain_name e' \<Longrightarrow>
   count_matches (beginTag e) (close_env e' r) = count_matches (beginTag e) r"
  by (simp add: close_env_def Let_def count_matches_sep newline_notin_tags
        count_beginTag_repeat)

lemma count_other_endTag_close_env:
  "plain_name e \<Longrightarrow> plain_name e' \<Longrightarrow> e \<noteq> e' \<Longrightarrow>
   count_matches (endTag e) (close_env e' r) = count_matches (endTag e) r"
  by (simp add: close_env_def Let_def count_matches_sep newline_notin_tags
        count_other_endTag_repeat)

lemma count_endTag_close_env:
  "plain_name e \<Longrightarrow>
   count_matches (endTag e) (close_env e r)
   = max (count_matches (endTag e) r) (count_matches (beginTag e) r)"
  by (simp add: close_env_def Let_def count_matches_sep newline_notin_tags
        count_endTag_repeat)

lemma balanced_close_env:
  assumes "plain_name e" "plain_name e'" "e = e' \<or> balanced r e"
  shows "balanced (close_env e' r) e"
proof (cases "e = e'")
  case True
  with assms(1) show ?thesis
    by (simp add: balanced_def count_endTag_close_env count_beginTag_close_env)
next
  case False
  with assms show ?thesis
    by (simp add: balanced_def count_other_endTag_close_env count_beginTag_close_env)
qed

lemma balanced_fold_close_env:
  "\<forall>e'\<in>set es. plain_name e' \<Longrightarrow> plain_name e \<Longrightarrow> e \<in> set es \<or> balanced r e \<Longrightarrow>
   balanced (fold close_env es r) e"
proof (induction es arbitrary: r)
  case Nil
  then show ?case by simp
next
  case (Cons e' es)
  have "e \<in> set es \<or> balanced (close_env e' r) e"
  proof (cases "e \<in> set es")
    case True
    then show ?thesis by simp
  next
    case False
    with Cons.prems have "e = e' \<or> balanced r e" by auto
    with Cons.prems show ?thesis
      by (simp add: balanced_close_env)
  qed
  with Cons show ?case by simp
qed

lemma close_env_balanced: "balanced r e \<Longrightarrow> close_env e r = r"
  by (simp add: close_env_def balanced_def Let_def)

lemma fold_close_env_balanced:
  "\<forall>e\<in>set es. balanced r e \<Longrightarrow> fold close_env es r = r"
  by (induction es) (simp_all add: close_env_balanced)

lemma fold_close_env_twice:
  "fold close_env environments (fold close_env environments r) = fold close_env environments r"
  by (rule fold_close_env_balanced)
     (simp add: balanced_fold_close_env environments_plain)

lemma newline_not_terminal: "newline \<notin> set terminals"
  by (simp add: newline_def terminals_def lit_def)

lemma repeat_no_terminal:
  "plain_name e \<Longrightarrow> set (repeat (endTag e) n) \<inter> set terminals = {}"
  using terminals_notin_endTag [of e] by (auto simp: repeat_def)

lemma close_env_tail:
  assumes "plain_name e"
  shows "\<exists>a. close_env e r = r @ a \<and> tail_piece a"
proof (cases "count_matches (endTag e) r < count_matches (beginTag e) r")
  case True
  let ?a = "newline # repeat (endTag e) (count_matches (beginTag e) r - count_matches (endTag e) r)"
  have "close_env e r = r @ ?a"
    using True by (simp add: close_env_def Let_def)
  moreover have "tail_piece ?a"
    unfolding tail_piece_def
    using repeat_no_terminal [OF assms] newline_not_terminal by auto
  ultimately show ?thesis
    by (intro exI [of _ ?a] conjI)
next
  case False
  then have "close_env e r = r @ []"
    by (simp add: close_env_def Let_def)
  moreover have "tail_piece []"
    by (simp add: tail_piece_def)
  ultimately show ?thesis
    by (intro exI [of _ "[]"] conjI)
qed

lemma tail_piece_append: "tail_piece a \<Longrightarrow> tail_piece b \<Longrightarrow> tail_piece (a @ b)"
  by (cases a) (auto simp: tail_piece_def)

lemma fold_close_env_tail:
  "\<forall>e\<in>set es. plain_name e \<Longrightarrow> \<exists>a. fold close_env es r = r @ a \<and> tail_piece a"
proof (induction es arbitrary: r)
  case Nil
  then show ?case by (simp add: tail_piece_def)
next
  case (Cons e es)
  then obtain a where a: "close_env e r = r @ a" "tail_piece a"
    using close_env_tail [of e r] by auto
  from Cons obtain b where b: "fold close_env es (r @ a) = (r @ a) @ b" "tail_piece b"
    by fastforce
  from a b have "fold close_env (e # es) r = r @ (a @ b)" by simp
  with a b show ?case
    using tail_piece_append by blast
qed

lemma ensureLatexCompleteness_tail:
  "\<exists>a. ensureLatexCompleteness y = y @ a \<and> tail_piece a"
proof (cases "y = []")
  case True
  then show ?thesis by (simp add: ensureLatexCompleteness_def tail_piece_def)
next
  case False
  then show ?thesis
    using fold_close_env_tail [of environments y]
    by (simp add: ensureLatexCompleteness_def environments_plain)
qed

lemma ensureLatexCompleteness_idem:
  "ensureLatexCompleteness (ensureLatexCompleteness y) = ensureLatexCompleteness y"
proof (cases "y = []")
  case True
  then show ?thesis by (simp add: ensureLatexCompleteness_def)
next
  case False
  obtain a where "fold close_env environments y = y @ a"
    using fold_close_env_tail [of environments y] by (auto simp: environments_plain)
  with False have "fold close_env environments y \<noteq> []" by simp
  with False show ?thesis
    by (simp add: ensureLatexCompleteness_def fold_close_env_twice)
qed

lemma lastIndexOf_bounds: "- 1 \<le> lastIndexOf xs c \<and> lastIndexOf xs c < int (length xs)"
  by (induction xs) (auto simp: Let_def)

lemma lastIndexOf_absent: "c \<notin> set xs \<Longrightarrow> lastIndexOf xs c = - 1"
  by (induction xs) (auto simp: Let_def)

lemma lastIndexOf_append_absent:
  "c \<notin> set post \<Longrightarrow> lastIndexOf (pre @ post) c = lastIndexOf pre c"
proof (induction pre)
  case Nil
  then show ?case by (simp add: lastIndexOf_absent)
next
  case (Cons x pre)
  then show ?case by (simp add: Let_def)
qed

lemma lastIndexOf_snoc: "lastIndexOf (pre @ [c]) c = int (length pre)"
  by (induction pre) (auto simp: Let_def)

lemma lastIndexOf_split:
  "c \<notin> set post \<Longrightarrow> lastIndexOf (pre @ c # post) c = int (length pre)"
  using lastIndexOf_append_absent [of c post "pre @ [c]"] lastIndexOf_snoc [of pre c]
  by simp

lemma lastIndexOf_split_le:
  assumes "c \<notin> set post"
  shows "lastIndexOf (pre @ t # post) c \<le> int (length pre)"
proof -
  have "lastIndexOf (pre @ t # post) c = lastIndexOf (pre @ [t]) c"
    using lastIndexOf_append_absent [OF assms, of "pre @ [t]"] by simp
  then show ?thesis
    using lastIndexOf_bounds [of "pre @ [t]" c] by simp
qed

lemma last_terminal_absent:
  "set text \<inter> set terminals = {} \<Longrightarrow> last_terminal text = - 1"
  by (simp add: last_terminal_def terminals_def lit_def lastIndexOf_absent)

lemma last_terminal_split:
  assumes "t \<in> set terminals" "set post \<inter> set terminals = {}"
  shows "last_terminal (pre @ t # post) = int (length pre)"
proof -
  let ?x = "pre @ t # post"
  have le: "\<And>c. c \<in> set terminals \<Longrightarrow> lastIndexOf ?x c \<le> int (length pre)"
    using assms(2) by (intro lastIndexOf_split_le) auto
  have eq: "lastIndexOf ?x t = int (length pre)"
    using assms by (intro lastIndexOf_split) auto
  have a: "lastIndexOf ?x 0x2E \<le> int (length pre)"
    and b: "lastIndexOf ?x 0x21 \<le> int (length pre)"
    and c: "lastIndexOf ?x 0x3F \<le> int (length pre)"
    using le by (simp_all add: terminals_def lit_def)
  from assms(1) have "t = 0x2E \<or> t = 0x21 \<or> t = 0x3F"
    by (auto simp: terminals_def lit_def)
  with eq a b c show ?thesis
    by (auto simp: last_terminal_def terminals_def lit_def Let_def)
qed

lemma skip_closers_takeWhile:
  "e \<le> length s \<Longrightarrow>
   skip_closers s e = e + length (takeWhile (\<lambda>c. c \<in> set closers) (drop e s))"
proof (induction s e rule: skip_closers.induct)
  case (1 s e)
  show ?case
  proof (cases "e < length s \<and> s ! e \<in> set closers")
    case True
    then have d: "drop e s = s ! e # drop (Suc e) s"
      by (simp add: Cons_nth_drop_Suc)
    from True 1 have "skip_closers s (Suc e)
        = Suc e + length (takeWhile (\<lambda>c. c \<in> set closers) (drop (Suc e) s))"
      by simp
    moreover have "skip_closers s e = skip_closers s (Suc e)"
      using True by (subst skip_closers.simps) simp
    ultimately show ?thesis
      using True d by simp
  next
    case False
    have "takeWhile (\<lambda>c. c \<in> set closers) (drop e s) = []"
    proof (cases "e < length s")
      case True
      with False have "drop e s = s ! e # drop (Suc e) s" "s ! e \<notin> set closers"
        by (simp_all add: Cons_nth_drop_Suc)
      then show ?thesis by simp
    next
      case False
      then show ?thesis by simp
    qed
    moreover have "skip_closers s e = e"
      by (subst skip_closers.simps) (simp only: False if_False)
    ultimately show ?thesis
      by simp
  qed
qed

lemma not_ws_terminal: "c \<in> set terminals \<Longrightarrow> \<not> is_ws c"
  by (auto simp: terminals_def lit_def is_ws_def white_space_def)

lemma not_ws_closer: "c \<in> set closers \<Longrightarrow> \<not> is_ws c"
  by (auto simp: closers_def is_ws_def white_space_def)

lemma newline_not_closer: "newline \<notin> set closers"
  by (simp add: newline_def closers_def)

lemma trim_last_solid: "s \<noteq> [] \<Longrightarrow> \<not> is_ws (last s) \<Longrightarrow> trim s = dropWhile is_ws s"
proof -
  assume a: "s \<noteq> []" "\<not> is_ws (last s)"
  let ?d = "dropWhile is_ws s"
  from a have ne: "?d \<noteq> []"
    by (metis dropWhile_eq_Nil_conv last_in_set)
  with a have "last ?d = last s"
    by (metis append_Nil2 last_appendR takeWhile_dropWhile_id)
  with a ne have "dropWhile is_ws (rev ?d) = rev ?d"
    by (metis dropWhile.simps(2) hd_rev list.collapse rev_is_Nil_conv)
  then show ?thesis
    by (simp add: trim_def)
qed

lemma trim_solid: "s \<noteq> [] \<Longrightarrow> \<not> is_ws (hd s) \<Longrightarrow> \<not> is_ws (last s) \<Longrightarrow> trim s = s"
  by (cases s) (simp_all add: trim_last_solid)

lemma cut_at_exists:
  assumes "set s \<inter> set terminals \<noteq> {}"
  shows "\<exists>pre t cl rest. cut_at s pre t cl rest"
proof -
  from assms have "\<exists>x\<in>set s. x \<in> set terminals" by auto
  then obtain pre t post where
    p: "s = pre @ t # post" "t \<in> set terminals" "\<forall>z\<in>set post. z \<notin> set terminals"
    by (auto dest!: split_list_last_prop)
  let ?cl = "takeWhile (\<lambda>c. c \<in> set closers) post"
  let ?rest = "dropWhile (\<lambda>c. c \<in> set closers) post"
  have "post = ?cl @ ?rest" by simp
  moreover have "set ?cl \<subseteq> set closers"
    by (auto dest: set_takeWhileD)
  moreover have "?rest = [] \<or> hd ?rest \<notin> set closers"
    using hd_dropWhile [of "\<lambda>c. c \<in> set closers" post] by auto
  moreover have "set (?cl @ ?rest) \<inter> set terminals = {}"
    using p(3) by auto
  ultimately have "cut_at s pre t ?cl ?rest"
    using p(1,2) unfolding cut_at_def by (metis)
  then show ?thesis by blast
qed

lemma ensureCompleteSentences_cut:
  assumes "cut_at s pre t cl rest"
  shows "ensureCompleteSentences s = dropWhile is_ws pre @ t # cl"
proof -
  from assms have s: "s = pre @ t # cl @ rest" and t: "t \<in> set terminals"
    and nt: "set (cl @ rest) \<inter> set terminals = {}" and cl: "set cl \<subseteq> set closers"
    and rest: "rest = [] \<or> hd rest \<notin> set closers"
    by (simp_all add: cut_at_def)
  have lt: "last_terminal s = int (length pre)"
    unfolding s using t nt by (rule last_terminal_split)
  have tw: "takeWhile (\<lambda>c. c \<in> set closers) (cl @ rest) = cl"
  proof (cases rest)
    case Nil
    with cl show ?thesis by (simp add: subset_iff)
  next
    case (Cons x xs)
    with rest cl show ?thesis
      by (simp add: takeWhile_append2 subset_iff)
  qed
  have "drop (Suc (length pre)) s = cl @ rest"
    by (simp add: s)
  with tw have sk: "skip_closers s (Suc (length pre)) = Suc (length pre) + length cl"
    by (simp add: skip_closers_takeWhile s)
  have tk: "take (Suc (length pre) + length cl) s = pre @ t # cl"
    by (simp add: s)
  have "\<not> is_ws (last (pre @ t # cl))"
    using t cl not_ws_terminal not_ws_closer by (cases cl rule: rev_cases) auto
  then have "trim (pre @ t # cl) = dropWhile is_ws (pre @ t # cl)"
    by (intro trim_last_solid) simp_all
  also have "\<dots> = dropWhile is_ws pre @ t # cl"
    using t not_ws_terminal by (simp add: dropWhile_append3)
  finally have tr: "trim (pre @ t # cl) = dropWhile is_ws pre @ t # cl" .
  have "nat (int (length pre) + 1) = Suc (length pre)" by simp
  with lt sk tk tr show ?thesis
    by (simp add: ensureCompleteSentences_def s Let_def)
qed

lemma ensureCompleteSentences_plain:
  "set s \<inter> set terminals = {} \<Longrightarrow> ensureCompleteSentences s = s"
  by (simp add: ensureCompleteSentences_def last_terminal_absent)

lemma ensureCompleteSentences_tail:
  assumes "cut_at s pre t cl rest" "tail_piece a"
  shows "ensureCompleteSentences (ensureCompleteSentences s @ a) = ensureCompleteSentences s"
proof -
  let ?pre = "dropWhile is_ws pre"
  have y: "ensureCompleteSentences s = ?pre @ t # cl"
    using assms(1) by (rule ensureCompleteSentences_cut)
  from assms have t: "t \<in> set terminals"
    and nt: "set cl \<inter> set terminals = {}" and cl: "set cl \<subseteq> set closers"
    by (auto simp: cut_at_def)
  have "cut_at (?pre @ t # cl @ a) ?pre t cl a"
    using t nt cl assms(2) newline_not_closer
    by (auto simp: cut_at_def tail_piece_def)
  then have "ensureCompleteSentences (?pre @ t # cl @ a) = dropWhile is_ws ?pre @ t # cl"
    by (rule ensureCompleteSentences_cut)
  with y show ?thesis by simp
qed

text \<open>
  Claim C3. Output repair, that is \<open>ensureCompleteSentences\<close> followed by
  \<open>ensureLatexCompleteness\<close>, is idempotent: on every string, repairing the repaired
  string gives the repaired string back.
\<close>

theorem repair_idempotent: "repair (repair x) = repair x"
proof (cases "set x \<inter> set terminals = {}")
  case True
  then have sx: "ensureCompleteSentences x = x"
    by (rule ensureCompleteSentences_plain)
  obtain a where a: "ensureLatexCompleteness x = x @ a" "tail_piece a"
    using ensureLatexCompleteness_tail by blast
  with True have "set (x @ a) \<inter> set terminals = {}"
    by (auto simp: tail_piece_def)
  then have "ensureCompleteSentences (x @ a) = x @ a"
    by (rule ensureCompleteSentences_plain)
  moreover have "ensureLatexCompleteness (x @ a) = x @ a"
    using ensureLatexCompleteness_idem [of x] a(1) by simp
  ultimately show ?thesis
    using sx a(1) by (simp add: repair_def)
next
  case False
  then obtain pre t cl rest where c: "cut_at x pre t cl rest"
    using cut_at_exists by blast
  let ?y = "ensureCompleteSentences x"
  obtain a where a: "ensureLatexCompleteness ?y = ?y @ a" "tail_piece a"
    using ensureLatexCompleteness_tail by blast
  have "ensureCompleteSentences (?y @ a) = ?y"
    using c a(2) by (rule ensureCompleteSentences_tail)
  with a show ?thesis
    by (simp add: repair_def)
qed

section \<open>Coaching flows: proofs\<close>

lemma trim_Nil [simp]: "trim [] = []"
  by (simp add: trim_def)

lemma count_matches_no_backslash:
  assumes "backslash \<notin> set s"
  shows "count_matches (beginTag e) s = 0"
  using count_matches_skip [of "beginTag e" s "[]"] assms by simp

lemma ensureLatexCompleteness_no_backslash:
  assumes "backslash \<notin> set s"
  shows "ensureLatexCompleteness s = s"
proof -
  have "\<forall>e\<in>set environments. balanced s e"
    using assms by (simp add: balanced_def count_matches_no_backslash)
  then show ?thesis
    by (simp add: ensureLatexCompleteness_def fold_close_env_balanced)
qed

lemma FALLBACK_cut:
  "cut_at FALLBACK (lit ''No substantial issues detected. Keep going'') 0x21 [] []"
  by (simp add: cut_at_def FALLBACK_def lit_def terminals_def)

lemma repair_FALLBACK: "ensureLatexCompleteness (ensureCompleteSentences FALLBACK) = FALLBACK"
proof -
  have "ensureCompleteSentences FALLBACK = FALLBACK"
    using ensureCompleteSentences_cut [OF FALLBACK_cut]
    by (simp add: FALLBACK_def lit_def is_ws_def white_space_def)
  moreover have "backslash \<notin> set FALLBACK"
    by (simp add: FALLBACK_def lit_def backslash_def)
  ultimately show ?thesis
    by (simp add: ensureLatexCompleteness_no_backslash)
qed

lemma FALLBACK_nonblank: "FALLBACK \<noteq> [] \<and> trim FALLBACK \<noteq> []"
proof -
  have "trim FALLBACK = FALLBACK"
    by (rule trim_solid) (simp_all add: FALLBACK_def lit_def is_ws_def white_space_def)
  then show ?thesis
    by (simp add: FALLBACK_def lit_def)
qed

lemma safeOut_nonblank: "safeOut out \<noteq> [] \<and> trim (safeOut out) \<noteq> []"
  using FALLBACK_nonblank by (simp add: safeOut_def)

lemma ensureCompleteSentences_nonempty:
  assumes "s \<noteq> []"
  shows "ensureCompleteSentences s \<noteq> []"
proof (cases "set s \<inter> set terminals = {}")
  case True
  with assms show ?thesis by (simp add: ensureCompleteSentences_plain)
next
  case False
  then obtain pre t cl rest where "cut_at s pre t cl rest"
    using cut_at_exists by blast
  then show ?thesis by (simp add: ensureCompleteSentences_cut)
qed

lemma ensureLatexCompleteness_nonempty:
  "y \<noteq> [] \<Longrightarrow> ensureLatexCompleteness y \<noteq> []"
  using ensureLatexCompleteness_tail [of y] by auto

lemma finalOut_nonempty: "finalOut out \<noteq> []"
  by (simp add: finalOut_def safeOut_nonblank ensureCompleteSentences_nonempty
        ensureLatexCompleteness_nonempty)

lemma finalOut_nonempty' [simp]: "[] \<noteq> finalOut out"
  using finalOut_nonempty [of out] by simp

lemma finalOut_blank: "trim out = [] \<Longrightarrow> finalOut out = FALLBACK"
  by (simp add: finalOut_def safeOut_def repair_FALLBACK)

section \<open>Output repair: the itemize environment\<close>

lemma count_matches_zero_iff:
  "p \<noteq> [] \<Longrightarrow> count_matches p s = 0 \<longleftrightarrow> (\<forall>a b. s \<noteq> a @ p @ b)"
proof (induction p s rule: count_matches.induct)
  case (1 p s)
  show ?case
  proof (cases s)
    case Nil
    with 1(3) show ?thesis by simp
  next
    case (Cons x xs)
    then have sne: "\<not> (p = [] \<or> s = [])"
      using 1(3) by simp
    show ?thesis
    proof (cases "prefix p s")
      case True
      then obtain r where r: "s = [] @ p @ r"
        by (auto simp: prefix_def)
      have "count_matches p s \<noteq> 0"
        using True sne by (subst count_matches.simps) (simp add: take_eq_prefix)
      with r show ?thesis by blast
    next
      case False
      then have tk: "take (length p) s \<noteq> p"
        by (simp add: take_eq_prefix)
      have ih: "count_matches p xs = 0 \<longleftrightarrow> (\<forall>a b. xs \<noteq> a @ p @ b)"
        using 1(2) [OF sne tk 1(3)] Cons by simp
      have c: "count_matches p s = count_matches p xs"
        using False Cons by (simp add: count_matches_miss)
      have "(\<exists>a b. s = a @ p @ b) \<longleftrightarrow> (\<exists>a b. xs = a @ p @ b)"
      proof
        assume "\<exists>a b. s = a @ p @ b"
        then obtain a b where ab: "s = a @ p @ b" by blast
        with False have "a \<noteq> []" by (auto simp: prefix_def)
        then obtain a' where "a = x # a'"
          using ab Cons by (cases a) auto
        with ab Cons show "\<exists>a b. xs = a @ p @ b" by auto
      next
        assume "\<exists>a b. xs = a @ p @ b"
        then obtain a b where "xs = a @ p @ b" by blast
        with Cons have "s = (x # a) @ p @ b" by simp
        then show "\<exists>a b. s = a @ p @ b" by blast
      qed
      with ih c show ?thesis by auto
    qed
  qed
qed

lemma count_matches_zero_infix:
  assumes "count_matches p (u @ s @ v) = 0"
  shows "count_matches p s = 0"
proof (cases "p = []")
  case True
  then show ?thesis by (simp add: count_matches.simps)
next
  case False
  show ?thesis
  proof (rule ccontr)
    assume "count_matches p s \<noteq> 0"
    with False obtain a b where "s = a @ p @ b"
      by (auto simp: count_matches_zero_iff)
    then have "u @ s @ v = (u @ a) @ p @ (b @ v)" by simp
    with assms False show False
      using count_matches_zero_iff by blast
  qed
qed

lemma trim_infix: "\<exists>u v. s = u @ trim s @ v"
proof -
  let ?d = "dropWhile is_ws s"
  have "s = takeWhile is_ws s @ ?d" by simp
  moreover have "rev ?d = takeWhile is_ws (rev ?d) @ dropWhile is_ws (rev ?d)" by simp
  then have "?d = trim s @ rev (takeWhile is_ws (rev ?d))"
    unfolding trim_def by (metis rev_append rev_rev_ident)
  ultimately have "s = takeWhile is_ws s @ trim s @ rev (takeWhile is_ws (rev ?d))"
    by simp
  then show ?thesis by blast
qed

lemma ensureCompleteSentences_infix: "\<exists>u v. s = u @ ensureCompleteSentences s @ v"
proof -
  have plain: "\<exists>u v. s = u @ s @ v"
    by (rule exI [of _ "[]"], rule exI [of _ "[]"]) simp
  have cut: "\<exists>u v. s = u @ trim (take e s) @ v" for e
  proof -
    obtain u v where "take e s = u @ trim (take e s) @ v"
      using trim_infix by blast
    then have "s = u @ trim (take e s) @ (v @ drop e s)"
      by (metis append.assoc append_take_drop_id)
    then show ?thesis by blast
  qed
  show ?thesis
    unfolding ensureCompleteSentences_def Let_def using plain cut by auto
qed

lemma count_endTag_fold_close_env:
  "\<forall>e'\<in>set es. plain_name e' \<Longrightarrow> plain_name e \<Longrightarrow> e \<notin> set es \<Longrightarrow>
   count_matches (endTag e) (fold close_env es r) = count_matches (endTag e) r"
  by (induction es arbitrary: r) (auto simp: count_other_endTag_close_env)

lemma count_beginTag_fold_close_env:
  "\<forall>e'\<in>set es. plain_name e' \<Longrightarrow> plain_name e \<Longrightarrow>
   count_matches (beginTag e) (fold close_env es r) = count_matches (beginTag e) r"
  by (induction es arbitrary: r) (auto simp: count_beginTag_close_env)

lemma environments_itemize:
  "environments = lit ''itemize'' # tl environments \<and> lit ''itemize'' \<notin> set (tl environments)"
  by (simp add: environments_def lit_def)

lemma count_matches_tail_piece:
  assumes "newline \<notin> set p" "tail_piece a"
  shows "count_matches p (r @ a) = count_matches p r + count_matches p a"
proof (cases a)
  case Nil
  then show ?thesis by simp
next
  case (Cons x a')
  with assms(2) have x: "x = newline" by (simp add: tail_piece_def)
  have "count_matches p (newline # a') = count_matches p a'"
  proof (cases p)
    case Nil
    then show ?thesis by (simp add: count_matches.simps [of "[]"])
  next
    case (Cons c p')
    with assms(1) have "\<not> prefix p (newline # a')" by auto
    then show ?thesis by (rule count_matches_miss)
  qed
  with Cons x assms(1) show ?thesis
    by (simp add: count_matches_sep)
qed

lemma ensureLatexCompleteness_itemize:
  assumes "count_matches (endTag (lit ''itemize'')) y = 0"
  shows "\<exists>rest. ensureLatexCompleteness y =
           y @ (if count_matches (beginTag (lit ''itemize'')) y = 0 then []
                else newline # repeat (endTag (lit ''itemize'')) (count_matches (beginTag (lit ''itemize'')) y))
             @ rest
         \<and> count_matches (endTag (lit ''itemize'')) rest = 0"
    and "count_matches (endTag (lit ''itemize'')) (ensureLatexCompleteness y)
         = count_matches (beginTag (lit ''itemize'')) y"
proof -
  let ?it = "lit ''itemize''"
  let ?n = "count_matches (beginTag ?it) y"
  let ?piece = "if ?n = 0 then [] else newline # repeat (endTag ?it) ?n"
  have pl: "plain_name ?it" "\<forall>e\<in>set (tl environments). plain_name e"
    using environments_itemize environments_plain by (metis list.set_intros(1), metis list.set_intros(2))
  have nin: "?it \<notin> set (tl environments)"
    using environments_itemize by simp
  have ce: "close_env ?it y = y @ ?piece"
    using assms by (simp add: close_env_def Let_def)
  have cnt1: "count_matches (endTag ?it) (y @ ?piece) = ?n"
    using count_endTag_close_env [OF pl(1), of y] assms ce by simp
  obtain a where a: "fold close_env (tl environments) (y @ ?piece) = (y @ ?piece) @ a" "tail_piece a"
    using fold_close_env_tail [OF pl(2)] by blast
  have cnt2: "count_matches (endTag ?it) ((y @ ?piece) @ a) = ?n"
    using count_endTag_fold_close_env [OF pl(2) pl(1) nin, of "y @ ?piece"] a(1) cnt1 by simp
  have "count_matches (endTag ?it) ((y @ ?piece) @ a)
        = count_matches (endTag ?it) (y @ ?piece) + count_matches (endTag ?it) a"
    using a(2) pl(1) by (intro count_matches_tail_piece) (simp_all add: newline_notin_tags)
  with cnt1 cnt2 have a0: "count_matches (endTag ?it) a = 0" by simp
  have f: "fold close_env environments y = y @ ?piece @ a"
    using environments_itemize a(1) ce by (metis append.assoc fold_simps(2))
  show "\<exists>rest. ensureLatexCompleteness y = y @ ?piece @ rest
         \<and> count_matches (endTag ?it) rest = 0"
  proof (cases "y = []")
    case True
    then have "ensureLatexCompleteness y = y @ ?piece @ []"
      by (simp add: ensureLatexCompleteness_def)
    then show ?thesis
      by (intro exI [of _ "[]"] conjI) simp_all
  next
    case False
    with f have "ensureLatexCompleteness y = y @ ?piece @ a"
      by (simp add: ensureLatexCompleteness_def)
    with a0 show ?thesis by blast
  qed
  show "count_matches (endTag ?it) (ensureLatexCompleteness y) = ?n"
  proof (cases "y = []")
    case True
    then show ?thesis by (simp add: ensureLatexCompleteness_def)
  next
    case False
    with f cnt2 show ?thesis
      by (simp add: ensureLatexCompleteness_def)
  qed
qed

lemma count_matches_absent_head:
  "p \<noteq> [] \<Longrightarrow> hd p \<notin> set s \<Longrightarrow> count_matches p s = 0"
  using count_matches_skip [of p s "[]"] by simp

lemma backslash_notin_tl_beginTag:
  "plain_name e \<Longrightarrow> backslash \<notin> set (tl (beginTag e))"
  by (auto simp: plain_name_def beginTag_def lit_def backslash_def)

lemma endTag_not_prefix_beginTag: "\<not> prefix (endTag e) (beginTag e' @ t)"
  by (simp add: beginTag_def endTag_def lit_def)

lemma count_endTag_past_beginTag:
  assumes "plain_name e'"
  shows "count_matches (endTag e) (beginTag e' @ t) = count_matches (endTag e) t"
proof -
  obtain p' where p': "beginTag e' = backslash # p'"
    by (simp add: beginTag_def)
  with assms have "backslash \<notin> set p'"
    using backslash_notin_tl_beginTag [of e'] by simp
  then have "count_matches (endTag e) (p' @ t) = count_matches (endTag e) t"
    by (simp add: count_matches_skip)
  moreover have "count_matches (endTag e) (backslash # p' @ t) = count_matches (endTag e) (p' @ t)"
    using endTag_not_prefix_beginTag [of e e' t] p' by (simp add: count_matches_miss)
  ultimately show ?thesis
    using p' by simp
qed

lemma plain_itemize: "plain_name (lit ''itemize'')"
  by (rule environments_plain) (simp add: environments_def)

text \<open>
  Claim C4, as the code has it. Sentence completion runs first and discards what follows
  the last terminal punctuation, open markers included. For a text with no
  \<open>\end{itemize}\<close>, output repair returns the sentence-completed text, then (when that text
  holds \<open>n > 0\<close> markers \<open>\begin{itemize}\<close>) a newline and exactly \<open>n\<close> markers
  \<open>\end{itemize}\<close>, then the close markers of the other environments; the result holds
  exactly \<open>n\<close> markers \<open>\end{itemize}\<close>. When the text has no terminal punctuation,
  \<open>n\<close> is the number of \<open>\begin{itemize}\<close> of the text itself.
\<close>

theorem repair_closes_itemize:
  assumes "count_matches (endTag (lit ''itemize'')) s = 0"
  shows "(\<exists>rest. repair s =
            ensureCompleteSentences s
            @ (if count_matches (beginTag (lit ''itemize'')) (ensureCompleteSentences s) = 0 then []
               else newline # repeat (endTag (lit ''itemize''))
                      (count_matches (beginTag (lit ''itemize'')) (ensureCompleteSentences s)))
            @ rest
          \<and> count_matches (endTag (lit ''itemize'')) rest = 0)
       \<and> count_matches (endTag (lit ''itemize'')) (repair s)
          = count_matches (beginTag (lit ''itemize'')) (ensureCompleteSentences s)
       \<and> (set s \<inter> set terminals = {} \<longrightarrow>
            count_matches (endTag (lit ''itemize'')) (repair s)
            = count_matches (beginTag (lit ''itemize'')) s)"
proof -
  obtain u v where "s = u @ ensureCompleteSentences s @ v"
    using ensureCompleteSentences_infix by blast
  with assms have z: "count_matches (endTag (lit ''itemize'')) (ensureCompleteSentences s) = 0"
    using count_matches_zero_infix by metis
  have "set s \<inter> set terminals = {} \<longrightarrow>
            count_matches (endTag (lit ''itemize'')) (repair s)
            = count_matches (beginTag (lit ''itemize'')) s"
    using ensureLatexCompleteness_itemize(2) [OF z]
    by (auto simp: repair_def ensureCompleteSentences_plain)
  with ensureLatexCompleteness_itemize [OF z] show ?thesis
    unfolding repair_def by (intro conjI)
qed

theorem repair_closes_itemize_witness:
  "count_matches (endTag (lit ''itemize'')) (beginTag (lit ''itemize'') @ lit '' a. b'') = 0
   \<and> ensureCompleteSentences (beginTag (lit ''itemize'') @ lit '' a. b'')
       = beginTag (lit ''itemize'') @ lit '' a.''
   \<and> count_matches (endTag (lit ''itemize'')) (repair (beginTag (lit ''itemize'') @ lit '' a. b'')) = 1"
proof -
  let ?it = "lit ''itemize''"
  let ?s = "beginTag ?it @ lit '' a. b''"
  have nb: "backslash \<notin> set (lit '' a. b'')" "backslash \<notin> set (lit '' a.'')"
    by (simp_all add: lit_def backslash_def)
  have h: "count_matches (endTag ?it) ?s = 0"
    using nb by (simp add: count_endTag_past_beginTag plain_itemize count_matches_absent_head)
  have "cut_at ?s (beginTag ?it @ lit '' a'') 0x2E [] (lit '' b'')"
    by (simp add: cut_at_def lit_def terminals_def closers_def)
  then have "ensureCompleteSentences ?s = dropWhile is_ws (beginTag ?it @ lit '' a'') @ [0x2E]"
    by (rule ensureCompleteSentences_cut)
  then have y: "ensureCompleteSentences ?s = beginTag ?it @ lit '' a.''"
    by (simp add: beginTag_def backslash_def is_ws_def white_space_def lit_def)
  have n: "count_matches (beginTag ?it) (beginTag ?it @ lit '' a.'') = 1"
    using nb by (simp add: count_matches_hit count_matches_absent_head)
  from repair_closes_itemize [OF h] h y n show ?thesis
    by simp
qed

theorem repair_itemize_counterexample:
  "count_matches (beginTag (lit ''itemize'')) (lit ''Done. '' @ beginTag (lit ''itemize'')) = 1
   \<and> count_matches (endTag (lit ''itemize'')) (lit ''Done. '' @ beginTag (lit ''itemize'')) = 0
   \<and> repair (lit ''Done. '' @ beginTag (lit ''itemize'')) = lit ''Done.''
   \<and> count_matches (endTag (lit ''itemize'')) (repair (lit ''Done. '' @ beginTag (lit ''itemize''))) = 0"
proof -
  let ?it = "lit ''itemize''"
  let ?s = "lit ''Done. '' @ beginTag ?it"
  have nb: "backslash \<notin> set (lit ''Done. '')" "backslash \<notin> set (lit ''Done.'')"
    by (simp_all add: lit_def backslash_def)
  have b: "count_matches (beginTag ?it) ?s = 1"
    using nb count_matches_hit [of "beginTag ?it" "[]"] by (simp add: count_matches_skip)
  have e: "count_matches (endTag ?it) ?s = 0"
    using nb count_endTag_past_beginTag [OF plain_itemize, of ?it "[]"]
    by (simp add: count_matches_skip)
  have "cut_at ?s (lit ''Done'') 0x2E [] (lit '' '' @ beginTag ?it)"
    by (simp add: cut_at_def lit_def terminals_def closers_def beginTag_def backslash_def)
  then have "ensureCompleteSentences ?s = dropWhile is_ws (lit ''Done'') @ [0x2E]"
    by (rule ensureCompleteSentences_cut)
  then have y: "ensureCompleteSentences ?s = lit ''Done.''"
    by (simp add: is_ws_def white_space_def lit_def)
  have r: "repair ?s = lit ''Done.''"
    using nb by (simp add: repair_def y ensureLatexCompleteness_no_backslash)
  have "count_matches (endTag ?it) (lit ''Done.'') = 0"
    using nb by (simp add: count_matches_absent_head)
  with b e r show ?thesis
    by simp
qed

section \<open>Transport errors, scheduler and selection scope\<close>

text \<open>
  Claim C9. A response with a non-success status makes \<open>ollamaChat\<close> and
  \<open>ollamaChatStream\<close> throw the transport error, and so does a streaming response with
  no body; \<open>onDelta\<close> is not called and no content string is returned.
\<close>

theorem transport_error_no_partial_text:
  "(\<not> ok res \<longrightarrow>
      ollamaChat (Responded res) = Inl (OllamaHTTP (status res))
      \<and> ollamaChatStream parse (Responded res) = ([], Inl (OllamaHTTP (status res))))
   \<and> (body res = None \<longrightarrow>
      ollamaChatStream parse (Responded res) = ([], Inl (OllamaHTTP (status res))))"
  by (simp add: ollamaChat_def ollamaChatStream_def)

theorem transport_error_no_partial_text_witness:
  "\<not> ok \<lparr>ok = False, status = 500,
          json = Some \<lparr>message_content = Some (lit ''text''), response = None\<rparr>,
          body = Some [lit ''{}'' @ [newline]]\<rparr>
   \<and> ollamaChat (Responded \<lparr>ok = False, status = 500,
          json = Some \<lparr>message_content = Some (lit ''text''), response = None\<rparr>,
          body = Some [lit ''{}'' @ [newline]]\<rparr>) = Inl (OllamaHTTP 500)
   \<and> ollamaChatStream (\<lambda>l. Some \<lparr>message_content = Some (lit ''text''), response = None\<rparr>)
        (Responded \<lparr>ok = False, status = 500,
          json = Some \<lparr>message_content = Some (lit ''text''), response = None\<rparr>,
          body = Some [lit ''{}'' @ [newline]]\<rparr>) = ([], Inl (OllamaHTTP 500))
   \<and> body \<lparr>ok = True, status = 200, json = None, body = None\<rparr> = None
   \<and> ollamaChatStream (\<lambda>l. Some \<lparr>message_content = Some (lit ''text''), response = None\<rparr>)
        (Responded \<lparr>ok = True, status = 200, json = None, body = None\<rparr>)
       = ([], Inl (OllamaHTTP 200))"
  using transport_error_no_partial_text
      [of "\<lparr>ok = False, status = 500,
          json = Some \<lparr>message_content = Some (lit ''text''), response = None\<rparr>,
          body = Some [lit ''{}'' @ [newline]]\<rparr>"
          "\<lambda>l. Some \<lparr>message_content = Some (lit ''text''), response = None\<rparr>"]
    transport_error_no_partial_text
      [of "\<lparr>ok = True, status = 200, json = None, body = None\<rparr>"
          "\<lambda>l. Some \<lparr>message_content = Some (lit ''text''), response = None\<rparr>"]
  by simp

text \<open>
  Claim C8. After \<open>setSettings\<close>, which ends with \<open>ensureAlarm\<close>, the stored
  configuration is the previous one with the patch laid over it, and the alarm
  \<open>writetank:tick\<close> exists, with the stored interval as its period, exactly when the
  stored configuration has \<open>paused = false\<close> and \<open>intervalMin > 0\<close>; no other alarm is
  touched, so a background that held no alarm but the tick holds at most that one.
\<close>

theorem scheduler_armed_iff:
  assumes "dom (alarms st) \<subseteq> {''writetank:tick''}"
  shows "getSettings (setSettings patch st) = spread (getSettings st) patch
    \<and> (if \<not> paused (getSettings (setSettings patch st))
            \<and> 0 < intervalMin (getSettings (setSettings patch st))
        then alarms (setSettings patch st)
             = [''writetank:tick'' \<mapsto> intervalMin (getSettings (setSettings patch st))]
        else alarms (setSettings patch st) = Map.empty)
    \<and> dom (alarms (setSettings patch st)) \<subseteq> {''writetank:tick''}"
proof -
  have e: "(alarms st)(''writetank:tick'' := None) = Map.empty"
    using assms by (auto simp: fun_eq_iff domIff subset_iff)
  have g: "getSettings (setSettings patch st) = spread (getSettings st) patch"
    by (simp add: setSettings_def ensureAlarm_def getSettings_def spread_def Let_def)
  have a: "alarms (setSettings patch st)
      = (if \<not> paused (spread (getSettings st) patch) \<and> 0 < intervalMin (spread (getSettings st) patch)
         then [''writetank:tick'' \<mapsto> intervalMin (spread (getSettings st) patch)]
         else Map.empty)"
    using e by (simp add: setSettings_def ensureAlarm_def getSettings_def spread_def Let_def)
  from g a show ?thesis
    by simp
qed

theorem scheduler_armed_iff_witness:
  "dom (alarms \<lparr>storage = \<lparr>p_endpoint = None, p_model = None, p_intervalMin = None,
                            p_paused = None\<rparr>, alarms = Map.empty\<rparr>) \<subseteq> {''writetank:tick''}
   \<and> alarms (setSettings \<lparr>p_endpoint = None, p_model = None, p_intervalMin = Some 5,
                            p_paused = Some False\<rparr>
        \<lparr>storage = \<lparr>p_endpoint = None, p_model = None, p_intervalMin = None, p_paused = None\<rparr>,
           alarms = Map.empty\<rparr>) = [''writetank:tick'' \<mapsto> 5]
   \<and> alarms (setSettings \<lparr>p_endpoint = None, p_model = None, p_intervalMin = None,
                            p_paused = Some True\<rparr>
        (setSettings \<lparr>p_endpoint = None, p_model = None, p_intervalMin = Some 5,
                            p_paused = Some False\<rparr>
          \<lparr>storage = \<lparr>p_endpoint = None, p_model = None, p_intervalMin = None, p_paused = None\<rparr>,
             alarms = Map.empty\<rparr>)) = Map.empty"
proof -
  let ?init = "\<lparr>storage = \<lparr>p_endpoint = None, p_model = None, p_intervalMin = None,
                            p_paused = None\<rparr>, alarms = Map.empty\<rparr>"
  let ?on = "\<lparr>p_endpoint = None, p_model = None, p_intervalMin = Some 5, p_paused = Some False\<rparr>"
  let ?off = "\<lparr>p_endpoint = None, p_model = None, p_intervalMin = None, p_paused = Some True\<rparr>"
  have h: "dom (alarms ?init) \<subseteq> {''writetank:tick''}"
    by simp
  note 1 = scheduler_armed_iff [OF h, of ?on]
  then have h2: "dom (alarms (setSettings ?on ?init)) \<subseteq> {''writetank:tick''}"
    by simp
  note 2 = scheduler_armed_iff [OF h2, of ?off]
  have s1: "spread (getSettings ?init) ?on
      = \<lparr>endpoint = lit ''http://localhost:11434'', model = lit ''gpt-oss:20b'',
          intervalMin = 5, paused = False\<rparr>"
    by (simp add: spread_def getSettings_def DEFAULTS_def)
  from 1 s1 have a1: "alarms (setSettings ?on ?init) = [''writetank:tick'' \<mapsto> 5]"
    by simp
  from 1 s1 have "paused (spread (getSettings (setSettings ?on ?init)) ?off)"
    by (simp add: spread_def)
  with 2 have a2: "alarms (setSettings ?off (setSettings ?on ?init)) = Map.empty"
    by simp
  from h a1 a2 show ?thesis
    by (intro conjI)
qed

lemma probe_sel_blank: "blank_probe p \<Longrightarrow> probe_sel p = []"
  by (cases p) (auto simp: blank_probe_def probe_sel_def)

lemma first_sel_blank: "\<forall>p\<in>set ps. blank_probe p \<Longrightarrow> first_sel ps = []"
  by (induction ps) (simp_all add: probe_sel_blank)

lemma crlf_to_lf_Nil [simp]: "crlf_to_lf [] = []"
  by simp

text \<open>
  Claim C5. When no selection probe gives text (a probe that is missing, throws, or
  gives only white space counts as giving none), \<open>grabEditorText\<close> with
  \<open>preferSelection = true\<close> returns the empty selection and the empty text, whatever the
  mode and whatever text the editor holds.
\<close>

theorem selection_scope_never_falls_back:
  assumes "case window_selection pg of None \<Rightarrow> True | Some s \<Rightarrow> trim s = []"
    and "blank_probe (cm_selection pg)"
    and "\<forall>p\<in>set (cm_alt_selections pg). blank_probe p"
    and "blank_probe (ace_selection pg)"
    and "\<forall>p\<in>set (editable_ranges pg). blank_probe p"
  shows "grabEditorText True mode pg = \<lparr>selection = [], sample_text = [], wasTruncated = False\<rparr>"
proof -
  have "(case window_selection pg of None \<Rightarrow> []
          | Some s \<Rightarrow> if trim s \<noteq> [] then trim s else []) = []"
    using assms(1) by (cases "window_selection pg") auto
  then have "find_selection pg = []"
    using assms(2-5)
    by (simp add: find_selection_def probe_sel_blank first_sel_blank)
  then show ?thesis
    by (simp add: grabEditorText_def cr_to_lf_def Let_def)
qed

theorem selection_scope_never_falls_back_witness:
  "grabEditorText True Visible
     \<lparr>window_selection = Some (lit '' ''), cm_selection = Throws,
      cm_alt_selections = [Missing, Gives []], ace_selection = Gives (lit ''  ''),
      editable_ranges = [Missing], editor_content = (\<lambda>m. lit ''the whole document'')\<rparr>
   = \<lparr>selection = [], sample_text = [], wasTruncated = False\<rparr>"
proof -
  have t: "trim (lit '' '') = []" "trim (lit ''  '') = []"
    by (simp_all add: trim_def lit_def is_ws_def white_space_def)
  show ?thesis
    by (rule selection_scope_never_falls_back) (simp_all add: blank_probe_def t)
qed

section \<open>Truncation\<close>

lemma crlf_to_lf_plain: "0x0D \<notin> set s \<Longrightarrow> crlf_to_lf s = s"
  by (induction s rule: crlf_to_lf.induct) auto

lemma cr_to_lf_plain: "0x0D \<notin> set s \<Longrightarrow> cr_to_lf s = s"
  by (induction s) (auto simp: cr_to_lf_def)

lemma trim_replicate: "\<not> is_ws a \<Longrightarrow> trim (replicate n a) = replicate n a"
  by (simp add: trim_def dropWhile_replicate)

lemma trim_replicate_space:
  "\<not> is_ws a \<Longrightarrow> is_ws b \<Longrightarrow> 0 < n \<Longrightarrow> trim (replicate n a @ [b]) = replicate n a"
proof -
  assume a: "\<not> is_ws a" "is_ws b" "0 < n"
  then obtain m where n: "n = Suc m"
    by (cases n) auto
  have "dropWhile is_ws (replicate n a @ [b]) = replicate n a @ [b]"
    using a(1) n by simp
  then show ?thesis
    using a by (simp add: trim_def dropWhile_replicate)
qed

lemma letter_a_solid: "\<not> is_ws 0x61" "is_ws 0x20"
  by (simp_all add: is_ws_def white_space_def)

text \<open>
  Claim C6, as the code has it. The text that \<open>grabEditorText\<close> extracts (the selection
  found, or the editor content of the mode) is cleaned: newlines are normalised and
  surrounding white space is trimmed. When the cleaned text is longer than 1500 code
  units the result has \<open>wasTruncated = true\<close> and the first 1500 code units of the cleaned
  text; otherwise it has \<open>wasTruncated = false\<close> and the cleaned text.
\<close>

theorem truncation_after_cleaning:
  "(1500 < length (trim (cr_to_lf (crlf_to_lf
               (if preferSelection then find_selection pg else editor_content pg mode)))) \<longrightarrow>
      wasTruncated (grabEditorText preferSelection mode pg)
      \<and> length (sample_text (grabEditorText preferSelection mode pg)) = 1500
      \<and> sample_text (grabEditorText preferSelection mode pg)
        = take 1500 (trim (cr_to_lf (crlf_to_lf
               (if preferSelection then find_selection pg else editor_content pg mode)))))
   \<and> (length (trim (cr_to_lf (crlf_to_lf
               (if preferSelection then find_selection pg else editor_content pg mode)))) \<le> 1500 \<longrightarrow>
      \<not> wasTruncated (grabEditorText preferSelection mode pg)
      \<and> sample_text (grabEditorText preferSelection mode pg)
        = trim (cr_to_lf (crlf_to_lf
               (if preferSelection then find_selection pg else editor_content pg mode))))"
proof -
  have "(if preferSelection then (if length (find_selection pg) > 0 then find_selection pg else [])
         else editor_content pg mode)
        = (if preferSelection then find_selection pg else editor_content pg mode)"
    by simp
  then show ?thesis
    unfolding grabEditorText_def Let_def by simp
qed

theorem truncation_after_cleaning_witness:
  "1500 < length (trim (cr_to_lf (crlf_to_lf (replicate 1600 (0x61 :: 16 word)))))
   \<and> wasTruncated (grabEditorText False All
        \<lparr>window_selection = None, cm_selection = Missing, cm_alt_selections = [],
         ace_selection = Missing, editable_ranges = [],
         editor_content = (\<lambda>m. replicate 1600 0x61)\<rparr>)
   \<and> sample_text (grabEditorText False All
        \<lparr>window_selection = None, cm_selection = Missing, cm_alt_selections = [],
         ace_selection = Missing, editable_ranges = [],
         editor_content = (\<lambda>m. replicate 1600 0x61)\<rparr>) = replicate 1500 0x61"
proof -
  let ?pg = "\<lparr>window_selection = None, cm_selection = Missing, cm_alt_selections = [],
         ace_selection = Missing, editable_ranges = [],
         editor_content = (\<lambda>m::grab_mode. replicate 1600 (0x61 :: 16 word))\<rparr>"
  have c: "trim (cr_to_lf (crlf_to_lf (replicate 1600 (0x61 :: 16 word)))) = replicate 1600 0x61"
    by (simp add: crlf_to_lf_plain cr_to_lf_plain trim_replicate letter_a_solid)
  then have h: "1500 < length (trim (cr_to_lf (crlf_to_lf (replicate 1600 (0x61 :: 16 word)))))"
    by simp
  from truncation_after_cleaning [of False ?pg All] c h show ?thesis
    by simp
qed

theorem truncation_counterexample:
  "length (replicate 1500 (0x61 :: 16 word) @ [0x20]) = 1501
   \<and> cr_to_lf (crlf_to_lf (replicate 1500 0x61 @ [0x20])) = replicate 1500 0x61 @ [0x20]
   \<and> grabEditorText False All
        \<lparr>window_selection = None, cm_selection = Missing, cm_alt_selections = [],
         ace_selection = Missing, editable_ranges = [],
         editor_content = (\<lambda>m. replicate 1500 0x61 @ [0x20])\<rparr>
      = \<lparr>selection = [], sample_text = replicate 1500 0x61, wasTruncated = False\<rparr>"
proof -
  have n: "cr_to_lf (crlf_to_lf (replicate 1500 0x61 @ [0x20])) = replicate 1500 0x61 @ [0x20]"
    by (simp add: crlf_to_lf_plain cr_to_lf_plain)
  have t: "trim (replicate 1500 0x61 @ [0x20]) = replicate 1500 0x61"
    by (rule trim_replicate_space) (simp_all add: letter_a_solid)
  have s: "find_selection \<lparr>window_selection = None, cm_selection = Missing, cm_alt_selections = [],
         ace_selection = Missing, editable_ranges = [],
         editor_content = (\<lambda>m. replicate 1500 0x61 @ [0x20])\<rparr> = []"
    by (simp add: find_selection_def probe_sel_def)
  from n t s show ?thesis
    by (simp add: grabEditorText_def)
qed

section \<open>Streaming client: proofs\<close>

lemma indexOf_eq:
  "indexOf s c = (if c \<in> set s then int (length (takeWhile (\<lambda>x. x \<noteq> c) s)) else - 1)"
  by (induction s) (auto simp: Let_def)

lemma split_nl_nonempty [simp]: "split_nl s \<noteq> []"
  by (induction s) (auto split: list.splits)

lemma split_nl_line:
  "newline \<notin> set pre \<Longrightarrow> split_nl (pre @ newline # rest) = pre # split_nl rest"
  by (induction pre) auto

lemma split_nl_append:
  "split_nl (x @ y) = butlast (split_nl x) @ split_nl (last (split_nl x) @ y)"
proof (induction x)
  case Nil
  then show ?case by simp
next
  case (Cons c cs)
  show ?case
  proof (cases "c = newline")
    case True
    with Cons show ?thesis by simp
  next
    case False
    obtain l ls where s: "split_nl cs = l # ls"
      by (cases "split_nl cs") auto
    show ?thesis
    proof (cases ls)
      case Nil
      with s Cons False show ?thesis by simp
    next
      case (Cons l' ls')
      with s Cons.IH False show ?thesis by simp
    qed
  qed
qed

lemma take_line:
  "(if trim l = [] then st else take_fragment parse (trim l) st)
   = st\<lparr>full := full st @ concat (line_deltas parse l),
         calls := calls st @ line_deltas parse l\<rparr>"
  by (simp add: take_fragment_def line_deltas_def Let_def split: option.splits)

lemma split_nl_plain: "newline \<notin> set s \<Longrightarrow> split_nl s = [s]"
  by (induction s) auto

lemma drain_lines_step:
  assumes "buffer st = pre @ newline # rest" "newline \<notin> set pre"
  shows "drain_lines parse st =
         drain_lines parse (st\<lparr>buffer := rest,
            full := full st @ concat (line_deltas parse pre),
            calls := calls st @ line_deltas parse pre\<rparr>)"
proof -
  have tw: "takeWhile (\<lambda>x. x \<noteq> newline) (buffer st) = pre"
    using assms by (auto simp: takeWhile_tail)
  have idx: "indexOf (buffer st) newline = int (length pre)"
    using assms(1) tw by (simp add: indexOf_eq)
  have tk: "take (length pre) (buffer st) = pre" "drop (Suc (length pre)) (buffer st) = rest"
    using assms(1) by simp_all
  let ?st' = "st\<lparr>buffer := rest\<rparr>"
  have "drain_lines parse st =
        (if trim pre = [] then drain_lines parse ?st'
         else drain_lines parse (take_fragment parse (trim pre) ?st'))"
    by (subst drain_lines.simps) (simp add: idx tk Let_def)
  also have "\<dots> = drain_lines parse
                (if trim pre = [] then ?st' else take_fragment parse (trim pre) ?st')"
    by simp
  also have "\<dots> = drain_lines parse (?st'\<lparr>full := full ?st' @ concat (line_deltas parse pre),
         calls := calls ?st' @ line_deltas parse pre\<rparr>)"
    by (simp only: take_line)
  finally show ?thesis by simp
qed

lemma drain_lines_split:
  "drain_lines parse st =
     st\<lparr>buffer := last (split_nl (buffer st)),
        full := full st @ concat (concat (map (line_deltas parse) (butlast (split_nl (buffer st))))),
        calls := calls st @ concat (map (line_deltas parse) (butlast (split_nl (buffer st))))\<rparr>"
proof (induction "length (buffer st)" arbitrary: st rule: less_induct)
  case less
  show ?case
  proof (cases "newline \<in> set (buffer st)")
    case False
    then have "indexOf (buffer st) newline = - 1"
      by (simp add: indexOf_eq)
    then have "drain_lines parse st = st"
      by (subst drain_lines.simps) simp
    with False show ?thesis
      by (simp add: split_nl_plain)
  next
    case True
    then obtain pre rest where b: "buffer st = pre @ newline # rest" "newline \<notin> set pre"
      by (auto dest: split_list_first)
    let ?st = "st\<lparr>buffer := rest,
            full := full st @ concat (line_deltas parse pre),
            calls := calls st @ line_deltas parse pre\<rparr>"
    have "length (buffer ?st) < length (buffer st)"
      using b by simp
    from less [OF this] have ih: "drain_lines parse ?st =
       ?st\<lparr>buffer := last (split_nl rest),
        full := full ?st @ concat (concat (map (line_deltas parse) (butlast (split_nl rest)))),
        calls := calls ?st @ concat (map (line_deltas parse) (butlast (split_nl rest)))\<rparr>"
      by simp
    have sp: "split_nl (buffer st) = pre # split_nl rest"
      using b by (simp add: split_nl_line)
    have "drain_lines parse st = drain_lines parse ?st"
      using b by (rule drain_lines_step)
    with ih sp show ?thesis
      by simp
  qed
qed

lemma newline_notin_last_split_nl: "newline \<notin> set (last (split_nl s))"
  by (induction s) (auto split: list.splits)

lemma read_chunks_split:
  "newline \<notin> set (buffer st) \<Longrightarrow>
   read_chunks parse chunks st =
     st\<lparr>buffer := last (split_nl (buffer st @ concat chunks)),
        full := full st @ concat (concat (map (line_deltas parse)
                  (butlast (split_nl (buffer st @ concat chunks))))),
        calls := calls st @ concat (map (line_deltas parse)
                  (butlast (split_nl (buffer st @ concat chunks))))\<rparr>"
proof (induction chunks arbitrary: st)
  case Nil
  then show ?case
    by (simp add: split_nl_plain)
next
  case (Cons v vs)
  let ?x = "buffer st @ v"
  let ?ds1 = "concat (map (line_deltas parse) (butlast (split_nl ?x)))"
  let ?st1 = "st\<lparr>buffer := last (split_nl ?x), full := full st @ concat ?ds1,
                  calls := calls st @ ?ds1\<rparr>"
  have d: "drain_lines parse (st\<lparr>buffer := ?x\<rparr>) = ?st1"
    by (simp add: drain_lines_split)
  have "newline \<notin> set (buffer ?st1)"
    by (simp add: newline_notin_last_split_nl)
  from Cons.IH [OF this]
  have ih: "read_chunks parse vs ?st1 =
     ?st1\<lparr>buffer := last (split_nl (last (split_nl ?x) @ concat vs)),
        full := full ?st1 @ concat (concat (map (line_deltas parse)
                  (butlast (split_nl (last (split_nl ?x) @ concat vs))))),
        calls := calls ?st1 @ concat (map (line_deltas parse)
                  (butlast (split_nl (last (split_nl ?x) @ concat vs))))\<rparr>"
    by simp
  have sp: "split_nl (buffer st @ concat (v # vs))
            = butlast (split_nl ?x) @ split_nl (last (split_nl ?x) @ concat vs)"
    using split_nl_append [of ?x "concat vs"] by simp
  have bl: "butlast (split_nl (buffer st @ concat (v # vs)))
            = butlast (split_nl ?x) @ butlast (split_nl (last (split_nl ?x) @ concat vs))"
    by (simp only: sp) (simp add: butlast_append)
  have la: "last (split_nl (buffer st @ concat (v # vs)))
            = last (split_nl (last (split_nl ?x) @ concat vs))"
    by (simp only: sp) simp
  have "read_chunks parse (v # vs) st = read_chunks parse vs ?st1"
    using d by simp
  with ih show ?case
    by (simp only: bl la) simp
qed

lemma flush_remainder_line:
  "flush_remainder parse st =
     st\<lparr>full := full st @ concat (line_deltas parse (buffer st)),
        calls := calls st @ line_deltas parse (buffer st)\<rparr>"
  unfolding flush_remainder_def using take_line [of "buffer st" st parse] by auto

lemma stream_state_wire:
  "flush_remainder parse (read_chunks parse chunks \<lparr>buffer = [], full = [], calls = []\<rparr>) =
     \<lparr>buffer = last (split_nl (concat chunks)),
      full = concat (wire_deltas parse (concat chunks)),
      calls = wire_deltas parse (concat chunks)\<rparr>"
proof -
  let ?ls = "split_nl (concat chunks)"
  have "map (line_deltas parse) ?ls
        = map (line_deltas parse) (butlast ?ls) @ [line_deltas parse (last ?ls)]"
    by (metis append_butlast_last_id list.simps(8,9) map_append split_nl_nonempty)
  then have w: "wire_deltas parse (concat chunks)
        = concat (map (line_deltas parse) (butlast ?ls)) @ line_deltas parse (last ?ls)"
    by (simp add: wire_deltas_def)
  show ?thesis
    by (simp add: read_chunks_split flush_remainder_line w)
qed

text \<open>
  Claim C1, as the code has it. For a successful response with a body, whatever the
  chunk boundaries, \<open>ollamaChatStream\<close> calls \<open>onDelta\<close> once for each line of the body
  that is not blank, that \<open>JSON.parse\<close> accepts and whose delta is not empty, in the
  order of the lines; lines that do not parse are skipped; and it returns the
  concatenation of the deltas it passed to \<open>onDelta\<close>.
\<close>

theorem stream_delivers_wire_deltas:
  assumes "ok res" and "body res = Some chunks"
  shows "ollamaChatStream parse (Responded res)
         = (wire_deltas parse (concat chunks), Inr (concat (wire_deltas parse (concat chunks))))"
  using assms by (simp add: ollamaChatStream_def stream_state_wire Let_def)

lemmas sample_eval =
  wire_deltas_def line_deltas_def sample_parse_def content_line_def done_line_def delta_of_def
  lit_def backslash_def newline_def trim_def is_ws_def white_space_def

theorem stream_delivers_wire_deltas_witness:
  "ok \<lparr>ok = True, status = 200, json = None,
       body = Some [content_line ([backslash, backslash] @ lit ''para'') @ [newline]
                      @ lit ''{\"message\":{\"con'',
                    lit ''tent\":\"graph{Structure}\"}}'' @ [newline] @ lit ''{\"mess'' @ [newline],
                    content_line (lit '' Good.'')]\<rparr>
   \<and> ollamaChatStream sample_parse
        (Responded \<lparr>ok = True, status = 200, json = None,
           body = Some [content_line ([backslash, backslash] @ lit ''para'') @ [newline]
                          @ lit ''{\"message\":{\"con'',
                        lit ''tent\":\"graph{Structure}\"}}'' @ [newline] @ lit ''{\"mess''
                          @ [newline],
                        content_line (lit '' Good.'')]\<rparr>)
      = ([backslash # lit ''para'', lit ''graph{Structure}'', lit '' Good.''],
         Inr (backslash # lit ''paragraph{Structure} Good.''))"
proof -
  let ?chunks = "[content_line ([backslash, backslash] @ lit ''para'') @ [newline]
                      @ lit ''{\"message\":{\"con'',
                    lit ''tent\":\"graph{Structure}\"}}'' @ [newline] @ lit ''{\"mess'' @ [newline],
                    content_line (lit '' Good.'')]"
  let ?res = "\<lparr>ok = True, status = 200, json = None, body = Some ?chunks\<rparr>"
  have w: "wire_deltas sample_parse (concat ?chunks)
           = [backslash # lit ''para'', lit ''graph{Structure}'', lit '' Good.'']"
    by (simp add: sample_eval)
  have "ok ?res" "body ?res = Some ?chunks"
    by simp_all
  from stream_delivers_wire_deltas [OF this, of sample_parse] w show ?thesis
    by (simp add: lit_def)
qed

theorem stream_skips_empty_delta_counterexample:
  "sample_parse done_line = Some \<lparr>message_content = Some [], response = None\<rparr>
   \<and> ollamaChatStream sample_parse
        (Responded \<lparr>ok = True, status = 200, json = None,
                     body = Some [done_line @ [newline]]\<rparr>) = ([], Inr [])"
proof -
  have p: "sample_parse done_line = Some \<lparr>message_content = Some [], response = None\<rparr>"
    by (simp add: sample_parse_def content_line_def done_line_def lit_def)
  have "wire_deltas sample_parse (concat [done_line @ [newline]]) = []"
    by (simp add: sample_eval)
  then have "flush_remainder sample_parse
               (read_chunks sample_parse [done_line @ [newline]]
                  \<lparr>buffer = [], full = [], calls = []\<rparr>)
             = \<lparr>buffer = last (split_nl (concat [done_line @ [newline]])), full = [], calls = []\<rparr>"
    by (simp only: stream_state_wire) simp
  with p show ?thesis
    by (simp add: ollamaChatStream_def Let_def)
qed

section \<open>Summary cache: best summary\<close>

lemma first_best_single: "first_best f [x] x"
  by (simp add: first_best_def)

lemma first_best_Cons_new:
  assumes "first_best f xs h" "f h \<le> f x"
  shows "first_best f (x # xs) x"
  unfolding first_best_def
proof (intro exI [of _ 0] conjI allI impI)
  fix j assume "j < length (x # xs)"
  then show "f ((x # xs) ! j) \<le> f x"
    using assms by (cases j) (auto simp: first_best_def intro: order_trans)
qed simp_all

lemma first_best_Cons_old:
  assumes "first_best f xs h" "f x < f h"
  shows "first_best f (x # xs) h"
proof -
  from assms(1) obtain i where i: "i < length xs" "h = xs ! i"
    "\<forall>j<length xs. f (xs ! j) \<le> f h" "\<forall>j<i. f (xs ! j) < f h"
    by (auto simp: first_best_def)
  show ?thesis
    unfolding first_best_def
  proof (intro exI [of _ "Suc i"] conjI allI impI)
    fix j assume "j < length (x # xs)"
    then show "f ((x # xs) ! j) \<le> f h"
      using i(3) assms(2) by (cases j) auto
  next
    fix j assume "j < Suc i"
    then show "f ((x # xs) ! j) < f h"
      using i(4) assms(2) by (cases j) auto
  qed (use i in simp_all)
qed

lemma first_best_snoc_new:
  assumes "first_best f xs h" "f h < f x"
  shows "first_best f (xs @ [x]) x"
  unfolding first_best_def
proof (intro exI [of _ "length xs"] conjI allI impI)
  fix j assume "j < length (xs @ [x])"
  then show "f ((xs @ [x]) ! j) \<le> f x"
    using assms by (cases "j < length xs") (auto simp: first_best_def nth_append intro: order_trans less_imp_le)
next
  fix j assume "j < length xs"
  then show "f ((xs @ [x]) ! j) < f x"
    using assms by (auto simp: first_best_def nth_append intro: le_less_trans)
qed simp_all

lemma first_best_snoc_old:
  assumes "first_best f xs h" "f x \<le> f h"
  shows "first_best f (xs @ [x]) h"
proof -
  from assms(1) obtain i where i: "i < length xs" "h = xs ! i"
    "\<forall>j<length xs. f (xs ! j) \<le> f h" "\<forall>j<i. f (xs ! j) < f h"
    by (auto simp: first_best_def)
  show ?thesis
    unfolding first_best_def
  proof (intro exI [of _ i] conjI allI impI)
    fix j assume "j < length (xs @ [x])"
    then show "f ((xs @ [x]) ! j) \<le> f h"
      using i(3) assms(2) by (cases "j < length xs") (auto simp: nth_append)
  next
    fix j assume "j < i"
    then show "f ((xs @ [x]) ! j) < f h"
      using i(1,4) by (auto simp: nth_append)
  qed (use i in \<open>simp_all add: nth_append\<close>)
qed

lemma hd_insort_key:
  "hd (insort_key f x ys) = (if ys = [] then x else if f x \<le> f (hd ys) then x else hd ys)"
  by (cases ys) auto

lemma first_best_hd_sort_key:
  "xs \<noteq> [] \<Longrightarrow> first_best g xs (hd (sort_key (\<lambda>e. - g e) xs))"
proof (induction xs)
  case Nil
  then show ?case by simp
next
  case (Cons x xs)
  show ?case
  proof (cases "xs = []")
    case True
    then show ?thesis by (simp add: first_best_single)
  next
    case False
    let ?h = "hd (sort_key (\<lambda>e. - g e) xs)"
    from False Cons have h: "first_best g xs ?h" by simp
    from False have ne: "sort_key (\<lambda>e. - g e) xs \<noteq> []"
      by (metis length_sort length_0_conv)
    show ?thesis
    proof (cases "g ?h \<le> g x")
      case True
      with ne have "hd (sort_key (\<lambda>e. - g e) (x # xs)) = x"
        by (simp add: hd_insort_key)
      with h True show ?thesis
        by (simp add: first_best_Cons_new)
    next
      case False
      with ne have "hd (sort_key (\<lambda>e. - g e) (x # xs)) = ?h"
        by (simp add: hd_insort_key)
      with h False show ?thesis
        by (simp add: first_best_Cons_old)
    qed
  qed
qed

lemma score_nonneg: "0 \<le> score sel t"
  by (simp add: score_def)

lemma fold_pick_step_first_best:
  "xs \<noteq> [] \<Longrightarrow>
   \<exists>b. fold (pick_step lower sel) xs (None, - 1)
         = (Some b, score sel (tokenize lower (entry_text b)))
       \<and> first_best (\<lambda>e. score sel (tokenize lower (entry_text e))) xs b"
proof (induction xs rule: rev_induct)
  case Nil
  then show ?case by simp
next
  case (snoc x xs)
  let ?g = "\<lambda>e. score sel (tokenize lower (entry_text e))"
  show ?case
  proof (cases "xs = []")
    case True
    have "- 1 < ?g x"
      using score_nonneg [of sel "tokenize lower (entry_text x)"] by simp
    with True show ?thesis
      by (simp add: pick_step_def Let_def first_best_single)
  next
    case False
    with snoc obtain b where b: "fold (pick_step lower sel) xs (None, - 1) = (Some b, ?g b)"
      "first_best ?g xs b"
      by blast
    show ?thesis
    proof (cases "?g b < ?g x")
      case True
      with b(1) have "fold (pick_step lower sel) (xs @ [x]) (None, - 1) = (Some x, ?g x)"
        by (simp add: pick_step_def Let_def)
      with b(2) True show ?thesis
        using first_best_snoc_new [of ?g xs b x] by blast
    next
      case False
      with b(1) have "fold (pick_step lower sel) (xs @ [x]) (None, - 1) = (Some b, ?g b)"
        by (simp add: pick_step_def Let_def)
      with b(2) False show ?thesis
        using first_best_snoc_old [of ?g xs b x] by auto
    qed
  qed
qed

lemma regex_tokens_shape:
  "t \<in> set (regex_tokens s) \<Longrightarrow> 3 \<le> length t \<and> (\<forall>c\<in>set t. alnum c)"
proof (induction s rule: regex_tokens.induct)
  case (1 s)
  show ?case
  proof (cases "s = []")
    case True
    with 1(3) show ?thesis by (simp add: regex_tokens.simps)
  next
    case False
    let ?run = "takeWhile alnum s"
    show ?thesis
    proof (cases "3 \<le> length ?run")
      case True
      with False have "regex_tokens s = ?run # regex_tokens (drop (length ?run) s)"
        by (subst regex_tokens.simps) (simp add: Let_def)
      with 1(3) consider "t = ?run" | "t \<in> set (regex_tokens (drop (length ?run) s))"
        by auto
      then show ?thesis
      proof cases
        case 1
        with True show ?thesis by (auto dest: set_takeWhileD)
      next
        case 2
        with 1(1) [OF False refl True] show ?thesis by simp
      qed
    next
      case nr: False
      with False have "regex_tokens s = regex_tokens (tl s)"
        by (subst regex_tokens.simps) (simp add: Let_def)
      with 1(2) [OF False refl nr] 1(3) show ?thesis by simp
    qed
  qed
qed

lemma pickBestSummary_empty:
  "object_values m = [] \<Longrightarrow> pickBestSummary lower provided m = None"
  by (simp add: pickBestSummary_def)

lemma pickBestSummary_recent:
  assumes "object_values m \<noteq> []" "tokenize lower provided = []"
  shows "\<exists>e. pickBestSummary lower provided m = Some e
             \<and> first_best updatedAt (object_values m) e"
  using assms first_best_hd_sort_key [of "object_values m" updatedAt]
  by (simp add: pickBestSummary_def sort_recent_def Let_def)

lemma pickBestSummary_overlap:
  assumes "object_values m \<noteq> []" "tokenize lower provided \<noteq> []"
  shows "\<exists>e. pickBestSummary lower provided m = Some e
             \<and> first_best (\<lambda>e. score (tokenize lower provided) (tokenize lower (entry_text e)))
                  (object_values m) e"
proof -
  obtain b where "fold (pick_step lower (tokenize lower provided)) (object_values m) (None, - 1)
         = (Some b, score (tokenize lower provided) (tokenize lower (entry_text b)))"
    and "first_best (\<lambda>e. score (tokenize lower provided) (tokenize lower (entry_text e)))
           (object_values m) b"
    using fold_pick_step_first_best [OF assms(1)] by blast
  with assms show ?thesis
    by (simp add: pickBestSummary_def Let_def)
qed

text \<open>
  Claim C2, as the code has it. The tokens are runs of lowercase letters and digits of
  length at least 3. On an empty table the result is absent. With no token in the
  provided text the result is the entry updated last, and otherwise the entry whose
  text shares the most tokens with the provided text; among entries that tie, the
  first in the enumeration order of the table is returned.
\<close>

theorem pickBestSummary_first_best:
  "(\<forall>t\<in>set (tokenize lower provided). 3 \<le> length t \<and> (\<forall>c\<in>set t. alnum c))
   \<and> (object_values m = [] \<longrightarrow> pickBestSummary lower provided m = None)
   \<and> (object_values m \<noteq> [] \<and> tokenize lower provided = [] \<longrightarrow>
        (\<exists>e. pickBestSummary lower provided m = Some e
             \<and> first_best updatedAt (object_values m) e))
   \<and> (object_values m \<noteq> [] \<and> tokenize lower provided \<noteq> [] \<longrightarrow>
        (\<exists>e. pickBestSummary lower provided m = Some e
             \<and> first_best (\<lambda>e. score (tokenize lower provided) (tokenize lower (entry_text e)))
                  (object_values m) e))"
proof -
  have "\<forall>t\<in>set (tokenize lower provided). 3 \<le> length t \<and> (\<forall>c\<in>set t. alnum c)"
    using regex_tokens_shape by (simp add: tokenize_def)
  then show ?thesis
    using pickBestSummary_empty pickBestSummary_recent pickBestSummary_overlap by blast
qed

lemma regex_tokens_word:
  assumes "3 \<le> length w" "\<forall>c\<in>set w. alnum c"
  shows "regex_tokens w = [w]"
proof -
  have tw: "takeWhile alnum w = w"
    using assms(2) by (simp add: takeWhile_eq_all_conv)
  have ne: "w \<noteq> []"
    using assms(1) by auto
  have "regex_tokens [] = []"
    by (simp add: regex_tokens.simps)
  then show ?thesis
    using assms(1) ne by (subst regex_tokens.simps) (simp add: Let_def tw)
qed

lemma tokenize_foo: "tokenize (\<lambda>s. s) (lit ''foo'') = [lit ''foo'']"
  by (simp add: tokenize_def regex_tokens_word lit_def alnum_def)

theorem pickBestSummary_tie_counterexample:
  "score (tokenize (\<lambda>s. s) (lit ''foo''))
     (tokenize (\<lambda>s. s) (entry_text \<lparr>sectionKey = 1, entry_text = lit ''foo'', updatedAt = 1\<rparr>)) = 1
   \<and> score (tokenize (\<lambda>s. s) (lit ''foo''))
     (tokenize (\<lambda>s. s) (entry_text \<lparr>sectionKey = 2, entry_text = lit ''foo'', updatedAt = 2\<rparr>)) = 1
   \<and> pickBestSummary (\<lambda>s. s) (lit ''foo'')
        [(1, \<lparr>sectionKey = 1, entry_text = lit ''foo'', updatedAt = 1\<rparr>),
         (2, \<lparr>sectionKey = 2, entry_text = lit ''foo'', updatedAt = 2\<rparr>)]
      = Some \<lparr>sectionKey = 1, entry_text = lit ''foo'', updatedAt = 1\<rparr>"
  by (simp add: tokenize_foo score_def pickBestSummary_def object_values_def pick_step_def
        Let_def)

theorem pickBestSummary_first_best_witness:
  "object_values [(1, \<lparr>sectionKey = 1, entry_text = lit ''foo'', updatedAt = 1\<rparr>),
                  (2, \<lparr>sectionKey = 2, entry_text = lit ''foo'', updatedAt = 2\<rparr>)] \<noteq> []
   \<and> tokenize (\<lambda>s. s) (lit ''foo'') \<noteq> []
   \<and> (\<exists>e. pickBestSummary (\<lambda>s. s) (lit ''foo'')
              [(1, \<lparr>sectionKey = 1, entry_text = lit ''foo'', updatedAt = 1\<rparr>),
               (2, \<lparr>sectionKey = 2, entry_text = lit ''foo'', updatedAt = 2\<rparr>)] = Some e
          \<and> first_best (\<lambda>e. score (tokenize (\<lambda>s. s) (lit ''foo''))
                                (tokenize (\<lambda>s. s) (entry_text e)))
               (object_values [(1, \<lparr>sectionKey = 1, entry_text = lit ''foo'', updatedAt = 1\<rparr>),
                               (2, \<lparr>sectionKey = 2, entry_text = lit ''foo'', updatedAt = 2\<rparr>)]) e)"
proof -
  let ?m = "[(1 :: 32 word, \<lparr>sectionKey = 1, entry_text = lit ''foo'', updatedAt = 1\<rparr>),
             (2, \<lparr>sectionKey = 2, entry_text = lit ''foo'', updatedAt = 2\<rparr>)]"
  have a: "object_values ?m \<noteq> []"
    by (simp add: object_values_def)
  have b: "tokenize (\<lambda>s. s) (lit ''foo'') \<noteq> []"
    by (simp add: tokenize_foo)
  from pickBestSummary_first_best [of "\<lambda>s. s" "lit ''foo''" ?m] a b show ?thesis
    by blast
qed

section \<open>Summary cache: the entry cap\<close>

lemma alist_update_fresh: "k \<notin> fst ` set m \<Longrightarrow> AList.update k v m = m @ [(k, v)]"
  by (induction m) auto

lemma filter_delete:
  "filter (\<lambda>(k, e). k \<in> K \<or> k \<notin> set ks) (AList.delete key m)
   = filter (\<lambda>(k, e). k \<in> K \<or> k \<notin> set (key # ks)) m" if "key \<notin> K"
  using that by (induction m) auto

lemma filter_keep:
  "filter (\<lambda>(k, e). k \<in> K \<or> k \<notin> set ks) m
   = filter (\<lambda>(k, e). k \<in> K \<or> k \<notin> set (key # ks)) m" if "key \<in> K"
  using that by (induction m) auto

lemma fold_delete_filter:
  "fold (\<lambda>key m'. if key \<notin> K then AList.delete key m' else m') ks m
   = filter (\<lambda>(k, e). k \<in> K \<or> k \<notin> set ks) m"
proof (induction ks arbitrary: m)
  case Nil
  then show ?case by simp
next
  case (Cons key ks)
  show ?case
  proof (cases "key \<in> K")
    case True
    with Cons filter_keep [OF True, of ks m] show ?thesis by simp
  next
    case False
    with Cons filter_delete [OF False, of ks m] show ?thesis by simp
  qed
qed

lemma set_object_keys [simp]: "set (object_keys m) = fst ` set m"
  by (simp add: object_keys_def)

lemma set_object_values [simp]: "set (object_values m) = snd ` set m"
  by (simp add: object_values_def)

lemma length_object_values [simp]: "length (object_values m) = length m"
  by (simp add: object_values_def)

lemma set_sort_recent [simp]: "set (sort_recent es) = set es"
  by (simp add: sort_recent_def)

lemma length_sort_recent [simp]: "length (sort_recent es) = length es"
  by (simp add: sort_recent_def)

lemma cap_entries_filter:
  "cap_entries m =
     (if length m > maxEntries
      then filter (\<lambda>(k, e). k \<in> set (map sectionKey (take maxEntries (sort_recent (object_values m))))) m
      else m)"
proof -
  have "filter (\<lambda>(k, e). k \<in> K \<or> k \<notin> set (object_keys m)) m = filter (\<lambda>(k, e). k \<in> K) m" for K
    by (intro filter_cong) (auto simp: image_iff)
  then show ?thesis
    by (simp add: cap_entries_def Let_def fold_delete_filter)
qed

lemma distinct_map_sort_key:
  "distinct (map f xs) \<Longrightarrow> distinct (map f (sort_key g xs))"
  by (simp add: distinct_map)

lemma keyed_entries:
  assumes "keyed m"
  shows "distinct (map sectionKey (sort_recent (object_values m)))"
proof -
  let ?s = "sort_key (\<lambda>(k, e). unat k) m"
  have "\<forall>x\<in>set ?s. sectionKey (snd x) = fst x"
    using assms by (auto simp: keyed_def)
  then have "map (sectionKey \<circ> snd) ?s = map fst ?s"
    by simp
  moreover have "distinct (map fst ?s)"
    using assms by (simp add: keyed_def distinct_map_sort_key)
  ultimately have "distinct (map (sectionKey \<circ> snd) ?s)"
    by (simp only:)
  then have "distinct (map sectionKey (object_values m))"
    by (simp add: object_values_def)
  then show ?thesis
    unfolding sort_recent_def by (rule distinct_map_sort_key)
qed

lemma keyed_kept_iff:
  assumes "keyed m" "(k, e) \<in> set m"
  shows "k \<in> set (map sectionKey (take n (sort_recent (object_values m))))
         \<longleftrightarrow> e \<in> set (take n (sort_recent (object_values m)))"
proof
  let ?es = "sort_recent (object_values m)"
  have ke: "sectionKey e = k" and e: "e \<in> set ?es"
    using assms by (auto simp: keyed_def image_iff intro: bexI [of _ "(k, e)"])
  {
    assume "k \<in> set (map sectionKey (take n ?es))"
    then obtain e' where e': "e' \<in> set (take n ?es)" "sectionKey e' = k"
      by auto
    then have "e' \<in> set ?es"
      by (meson in_set_takeD)
    moreover have "inj_on sectionKey (set ?es)"
      using keyed_entries [OF assms(1)] by (simp add: distinct_map)
    ultimately have "e' = e"
      using e ke e'(2) by (auto dest: inj_onD)
    with e'(1) show "e \<in> set (take n ?es)" by simp
  }
  {
    assume "e \<in> set (take n ?es)"
    with ke show "k \<in> set (map sectionKey (take n ?es))"
      by force
  }
qed

lemma sort_recent_order:
  assumes "a \<in> set (take n (sort_recent es))" "b \<in> set (drop n (sort_recent es))"
  shows "updatedAt b \<le> updatedAt a"
proof -
  let ?s = "sort_recent es"
  have "sorted (map (\<lambda>e. - updatedAt e) (take n ?s @ drop n ?s))"
    by (simp add: sort_recent_def)
  then have "\<forall>x\<in>set (map (\<lambda>e. - updatedAt e) (take n ?s)).
             \<forall>y\<in>set (map (\<lambda>e. - updatedAt e) (drop n ?s)). x \<le> y"
    unfolding map_append sorted_append by blast
  with assms have "- updatedAt a \<le> - updatedAt b"
    by auto
  then show ?thesis by simp
qed

lemma keyed_filter: "keyed m \<Longrightarrow> keyed (filter P m)"
  by (auto simp: keyed_def distinct_map_filter)

lemma keyed_distinct_snd:
  assumes "keyed m"
  shows "distinct (map snd m)"
proof -
  have "map (sectionKey \<circ> snd) m = map fst m"
    using assms by (auto simp: keyed_def)
  moreover have "distinct (map fst m)"
    using assms by (simp add: keyed_def)
  ultimately have "distinct (map (sectionKey \<circ> snd) m)"
    by (simp only:)
  then show ?thesis
    by (auto simp: distinct_map dest: inj_on_imageI2)
qed

lemma map_of_filter_keys:
  "map_of (filter (\<lambda>(k, e). k \<in> K) m) k = (if k \<in> K then map_of m k else None)"
  by (induction m) auto

lemma keyed_map_of: "keyed m \<Longrightarrow> (k, e) \<in> set m \<longleftrightarrow> map_of m k = Some e"
  by (auto simp: keyed_def dest: map_of_SomeD)

lemma cap_entries_small: "length m \<le> maxEntries \<Longrightarrow> cap_entries m = m"
  by (simp add: cap_entries_filter)

lemma cap_entries_keyed: "keyed m \<Longrightarrow> keyed (cap_entries m)"
  by (simp add: cap_entries_filter keyed_filter)

lemma cap_entries_map_of:
  "map_of (cap_entries m) k = Some e \<Longrightarrow> map_of m k = Some e"
  by (simp add: cap_entries_filter map_of_filter_keys split: if_splits)

lemma cap_entries_evicts_oldest:
  assumes "keyed m" "map_of m k = Some e" "map_of (cap_entries m) k = None"
    "map_of (cap_entries m) k' = Some e'"
  shows "updatedAt e \<le> updatedAt e'"
proof -
  let ?es = "sort_recent (object_values m)"
  let ?K = "set (map sectionKey (take maxEntries ?es))"
  from assms(2,3) have big: "length m > maxEntries"
    by (auto simp: cap_entries_filter split: if_splits)
  then have c: "map_of (cap_entries m) x = (if x \<in> ?K then map_of m x else None)" for x
    by (simp add: cap_entries_filter map_of_filter_keys)
  from assms(2) have ke: "(k, e) \<in> set m"
    by (rule map_of_SomeD)
  from c [of k] assms(2,3) have "k \<notin> ?K"
    by (auto split: if_splits)
  with keyed_kept_iff [OF assms(1) ke, of maxEntries] have "e \<notin> set (take maxEntries ?es)"
    by simp
  moreover have "e \<in> set ?es"
    using ke by (auto simp: image_iff intro: bexI [of _ "(k, e)"])
  ultimately have d: "e \<in> set (drop maxEntries ?es)"
    by (metis Un_iff append_take_drop_id set_append)
  from c [of k'] assms(4) have "k' \<in> ?K" "map_of m k' = Some e'"
    by (auto split: if_splits)
  then have "(k', e') \<in> set m"
    by (auto dest: map_of_SomeD)
  with keyed_kept_iff [OF assms(1) this, of maxEntries] \<open>k' \<in> ?K\<close>
  have "e' \<in> set (take maxEntries ?es)"
    by simp
  then show ?thesis
    using d by (rule sort_recent_order)
qed

lemma cap_entries_length:
  assumes "keyed m" "length m > maxEntries"
  shows "length (cap_entries m) = maxEntries"
proof -
  let ?es = "sort_recent (object_values m)"
  let ?K = "set (map sectionKey (take maxEntries ?es))"
  let ?m' = "filter (\<lambda>(k, e). k \<in> ?K) m"
  have m': "cap_entries m = ?m'"
    using assms(2) by (simp add: cap_entries_filter)
  have "snd ` set ?m' = set (take maxEntries ?es)"
  proof (intro set_eqI iffI)
    fix e assume "e \<in> snd ` set ?m'"
    then obtain k where "(k, e) \<in> set m" "k \<in> ?K"
      by auto
    then show "e \<in> set (take maxEntries ?es)"
      using keyed_kept_iff [OF assms(1), of k e maxEntries] by simp
  next
    fix e assume e: "e \<in> set (take maxEntries ?es)"
    then have "e \<in> set ?es"
      by (meson in_set_takeD)
    then obtain k where k: "(k, e) \<in> set m"
      by auto
    with e have "k \<in> ?K"
      using keyed_kept_iff [OF assms(1) k, of maxEntries] by simp
    with k show "e \<in> snd ` set ?m'"
      by (auto simp: image_iff intro!: bexI [of _ "(k, e)"])
  qed
  then have "card (set (map snd ?m')) = card (set (take maxEntries ?es))"
    by simp
  moreover have "distinct (map snd ?m')"
    using assms(1) by (intro keyed_distinct_snd keyed_filter)
  moreover have "distinct (take maxEntries ?es)"
    using keyed_entries [OF assms(1)] by (simp add: distinct_map)
  ultimately have "length (map snd ?m') = length (take maxEntries ?es)"
    by (metis distinct_card)
  with assms(2) m' show ?thesis
    by simp
qed

lemma keyed_insert:
  assumes "keyed m" "\<not> cached m k" "t \<noteq> []"
  shows "AList.update k \<lparr>sectionKey = k, entry_text = t, updatedAt = now\<rparr> m
         = m @ [(k, \<lparr>sectionKey = k, entry_text = t, updatedAt = now\<rparr>)]"
    and "keyed (m @ [(k, \<lparr>sectionKey = k, entry_text = t, updatedAt = now\<rparr>)])"
    and "map_of m k = None"
proof -
  show n: "map_of m k = None"
  proof (cases "map_of m k")
    case None
    then show ?thesis .
  next
    case (Some e)
    then have "(k, e) \<in> set m" by (rule map_of_SomeD)
    with assms(1) have "entry_text e \<noteq> []" by (auto simp: keyed_def)
    with Some assms(2) show ?thesis by (simp add: cached_def)
  qed
  then have f: "k \<notin> fst ` set m"
    by (simp add: map_of_eq_None_iff)
  then show "AList.update k \<lparr>sectionKey = k, entry_text = t, updatedAt = now\<rparr> m
         = m @ [(k, \<lparr>sectionKey = k, entry_text = t, updatedAt = now\<rparr>)]"
    by (rule alist_update_fresh)
  show "keyed (m @ [(k, \<lparr>sectionKey = k, entry_text = t, updatedAt = now\<rparr>)])"
    using assms(1,3) f by (auto simp: keyed_def)
qed

lemma wf_table_Nil: "wf_table []"
  by (simp add: wf_table_def keyed_def)

lemma cap_entries_full:
  assumes "keyed m" "length m = Suc maxEntries"
  shows "cap_entries m
         = filter (\<lambda>(k, e). k \<noteq> sectionKey (last (sort_recent (object_values m)))) m"
    and "last (sort_recent (object_values m)) \<in> set (object_values m)"
    and "\<forall>e\<in>set (object_values m).
           updatedAt (last (sort_recent (object_values m))) \<le> updatedAt e"
proof -
  let ?es = "sort_recent (object_values m)"
  have len: "length ?es = Suc maxEntries"
    using assms(2) by simp
  have ne: "?es \<noteq> []"
  proof
    assume "?es = []"
    then have "length ?es = 0"
      by (simp only: list.size)
    with len show False
      by (simp only:)
  qed
  have dk: "distinct (map sectionKey ?es)"
    using assms(1) by (rule keyed_entries)
  then have d: "distinct ?es" and inj: "inj_on sectionKey (set ?es)"
    by (simp_all add: distinct_map)
  have tk: "take maxEntries ?es = butlast ?es"
    using len by (simp add: butlast_conv_take)
  have split: "?es = butlast ?es @ [last ?es]"
    using ne by simp
  have nl: "last ?es \<notin> set (butlast ?es)"
    using d split by (metis distinct_butlast not_distinct_conv_prefix append_butlast_last_id
        distinct.simps(2) distinct_append in_set_conv_decomp list.set_intros(1) disjoint_iff)
  show last_in: "last ?es \<in> set (object_values m)"
    using ne last_in_set [of ?es] by simp
  have kept: "k \<in> set (map sectionKey (take maxEntries ?es)) \<longleftrightarrow> k \<noteq> sectionKey (last ?es)"
    if "(k, e) \<in> set m" for k e
  proof -
    have ke: "sectionKey e = k" and e: "e \<in> set ?es"
      using assms(1) that by (auto simp: keyed_def image_iff intro: bexI [of _ "(k, e)"])
    have "k \<in> set (map sectionKey (take maxEntries ?es)) \<longleftrightarrow> e \<in> set (butlast ?es)"
      using keyed_kept_iff [OF assms(1) that, of maxEntries] tk by simp
    also have "\<dots> \<longleftrightarrow> e \<noteq> last ?es"
      using e nl split by (metis Un_iff empty_iff insert_iff list.set(1,2) set_append)
    also have "\<dots> \<longleftrightarrow> k \<noteq> sectionKey (last ?es)"
      using inj e ne ke last_in_set [OF ne] by (auto dest: inj_onD)
    finally show ?thesis .
  qed
  have "cap_entries m
        = filter (\<lambda>(k, e). k \<in> set (map sectionKey (take maxEntries ?es))) m"
    using assms(2) by (simp add: cap_entries_filter)
  also have "\<dots> = filter (\<lambda>(k, e). k \<noteq> sectionKey (last ?es)) m"
    using kept by (intro filter_cong) auto
  finally show "cap_entries m = filter (\<lambda>(k, e). k \<noteq> sectionKey (last ?es)) m" .
  show "\<forall>e\<in>set (object_values m). updatedAt (last ?es) \<le> updatedAt e"
  proof
    fix e assume "e \<in> set (object_values m)"
    then have e: "e \<in> set ?es"
      by simp
    have "drop maxEntries ?es \<noteq> []"
      using len by simp
    then have b: "last ?es \<in> set (drop maxEntries ?es)"
      using len last_in_set [of "drop maxEntries ?es"] by (simp add: last_drop)
    show "updatedAt (last ?es) \<le> updatedAt e"
    proof (cases "e \<in> set (take maxEntries ?es)")
      case True
      then show ?thesis
        using b by (rule sort_recent_order)
    next
      case False
      with e tk split have "e = last ?es"
        by (metis Un_iff empty_iff insert_iff list.set(1,2) set_append)
      then show ?thesis by simp
    qed
  qed
qed

text \<open>
  Claim C7. Let \<open>key\<close> be the fingerprint of the first 800 characters of the text,
  \<open>summary\<close> what the summarisation request returns (empty on failure) and \<open>new\<close> the
  entry made of them. From a well-formed table, \<open>maybeUpdateSummary\<close> leaves a
  well-formed table, so one of at most 12 entries. On a cache hit, or when the summary
  is blank, the table is unchanged. Otherwise \<open>new\<close> is stored under \<open>key\<close>: a table of
  fewer than 12 entries gains it and loses nothing; a table of 12 entries gains it and
  loses exactly the entry that comes last when the 13 are ordered by recency, which no
  other of the 13 is older than. An entry already written is never changed: it is
  there as it was, or evicted.
\<close>

theorem summary_cache_capped:
  assumes "wf_table m"
  shows "let key = simpleHash (take 800 s);
             summary = (case ollamaChat fr of Inl e \<Rightarrow> [] | Inr t \<Rightarrow> t);
             new = \<lparr>sectionKey = key, entry_text = trim summary, updatedAt = now\<rparr>;
             m1 = m @ [(key, new)];
             oldest = last (sort_recent (object_values m1));
             m' = maybeUpdateSummary m s fr now
         in wf_table m' \<and> length m' \<le> 12
            \<and> (cached m key \<or> trim summary = [] \<longrightarrow> m' = m)
            \<and> (\<not> cached m key \<and> trim summary \<noteq> [] \<and> length m < 12 \<longrightarrow> m' = m1)
            \<and> (\<not> cached m key \<and> trim summary \<noteq> [] \<and> length m = 12 \<longrightarrow>
                  m' = filter (\<lambda>(k, e). k \<noteq> sectionKey oldest) m1
                  \<and> length m' = 12
                  \<and> oldest \<in> set (object_values m1)
                  \<and> (\<forall>e\<in>set (object_values m1). updatedAt oldest \<le> updatedAt e))
            \<and> (\<forall>k e. map_of m k = Some e \<longrightarrow>
                  map_of m' k = Some e
                  \<or> (map_of m' k = None \<and> length m = 12
                     \<and> (\<forall>k' e'. map_of m' k' = Some e' \<longrightarrow> updatedAt e \<le> updatedAt e')))"
proof -
  let ?key = "simpleHash (take 800 s)"
  let ?summary = "case ollamaChat fr of Inl e \<Rightarrow> [] | Inr t \<Rightarrow> t"
  let ?new = "\<lparr>sectionKey = ?key, entry_text = trim ?summary, updatedAt = now\<rparr>"
  let ?m1 = "m @ [(?key, ?new)]"
  let ?oldest = "last (sort_recent (object_values ?m1))"
  let ?m' = "maybeUpdateSummary m s fr now"
  from assms have km: "keyed m" and lm: "length m \<le> 12"
    by (simp_all add: wf_table_def maxEntries_def)
  have blank: "trim ?summary = [] \<longleftrightarrow> \<not> (?summary \<noteq> [] \<and> trim ?summary \<noteq> [])"
    by auto
  have hit: "?m' = m" if "cached m ?key \<or> trim ?summary = []"
    using that by (auto simp: maybeUpdateSummary_def Let_def)
  have ins: "?m' = cap_entries ?m1 \<and> keyed ?m1" if "\<not> cached m ?key" "trim ?summary \<noteq> []"
  proof -
    note i = keyed_insert [OF km that]
    from that have "?summary \<noteq> []"
      by auto
    with that i(1) have "?m' = cap_entries ?m1"
      by (simp add: maybeUpdateSummary_def Let_def)
    with i(2) show ?thesis by simp
  qed
  have small: "?m' = ?m1" if "\<not> cached m ?key" "trim ?summary \<noteq> []" "length m < 12"
    using ins [OF that(1,2)] that(3) by (simp add: cap_entries_small maxEntries_def)
  have full: "?m' = filter (\<lambda>(k, e). k \<noteq> sectionKey ?oldest) ?m1
      \<and> length ?m' = 12 \<and> ?oldest \<in> set (object_values ?m1)
      \<and> (\<forall>e\<in>set (object_values ?m1). updatedAt ?oldest \<le> updatedAt e)"
    if "\<not> cached m ?key" "trim ?summary \<noteq> []" "length m = 12"
  proof -
    from ins [OF that(1,2)] have r: "?m' = cap_entries ?m1" and k1: "keyed ?m1"
      by simp_all
    have l1: "length ?m1 = Suc maxEntries"
      using that(3) by (simp add: maxEntries_def)
    then have "length ?m1 > maxEntries"
      by simp
    with cap_entries_length [OF k1] have l: "length (cap_entries ?m1) = 12"
      by (simp only: maxEntries_def)
    note f = cap_entries_full [OF k1 l1]
    show ?thesis
      unfolding r using f l by blast
  qed
  have wf: "wf_table ?m'"
  proof (cases "cached m ?key \<or> trim ?summary = []")
    case True
    with hit assms show ?thesis by simp
  next
    case False
    then have c: "\<not> cached m ?key" "trim ?summary \<noteq> []"
      by simp_all
    from ins [OF c] have r: "?m' = cap_entries ?m1" and k1: "keyed ?m1"
      by simp_all
    have "keyed ?m'"
      unfolding r using k1 by (rule cap_entries_keyed)
    moreover have "length ?m' \<le> 12"
    proof (cases "length m = 12")
      case True
      from full [OF c True] have "length ?m' = 12"
        by blast
      then show ?thesis
        by (simp only:)
    next
      case False
      with lm have "length m < 12" by simp
      with small [OF c] lm show ?thesis by simp
    qed
    ultimately show ?thesis
      by (simp add: wf_table_def maxEntries_def)
  qed
  then have le: "length ?m' \<le> 12"
    by (simp add: wf_table_def maxEntries_def)
  have old: "\<forall>k e. map_of m k = Some e \<longrightarrow>
          map_of ?m' k = Some e
          \<or> (map_of ?m' k = None \<and> length m = 12
             \<and> (\<forall>k' e'. map_of ?m' k' = Some e' \<longrightarrow> updatedAt e \<le> updatedAt e'))"
  proof (intro allI impI)
    fix k e assume a: "map_of m k = Some e"
    show "map_of ?m' k = Some e
          \<or> (map_of ?m' k = None \<and> length m = 12
             \<and> (\<forall>k' e'. map_of ?m' k' = Some e' \<longrightarrow> updatedAt e \<le> updatedAt e'))"
    proof (cases "cached m ?key \<or> trim ?summary = []")
      case True
      with hit a show ?thesis by simp
    next
      case False
      then have c: "\<not> cached m ?key" "trim ?summary \<noteq> []"
        by simp_all
      from ins [OF c] have r: "?m' = cap_entries ?m1" and k1: "keyed ?m1"
        by simp_all
      have a1: "map_of ?m1 k = Some e"
        using a by (simp add: map_of_append)
      show ?thesis
      proof (cases "map_of ?m' k")
        case None
        have "length m = 12"
        proof (rule ccontr)
          assume "length m \<noteq> 12"
          with lm have "length m < 12" by simp
          from small [OF c this] None have "map_of ?m1 k = None"
            by (simp only:)
          with a1 show False
            by (metis option.distinct(1))
        qed
        moreover have "\<forall>k' e'. map_of ?m' k' = Some e' \<longrightarrow> updatedAt e \<le> updatedAt e'"
          using cap_entries_evicts_oldest [OF k1 a1] None unfolding r by blast
        ultimately show ?thesis
          using None by simp
      next
        case (Some e')
        then have "map_of ?m1 k = Some e'"
          unfolding r by (rule cap_entries_map_of)
        with a1 Some show ?thesis
          by (metis option.inject)
      qed
    qed
  qed
  from wf le hit small full old show ?thesis
    unfolding Let_def by (intro conjI impI) blast+
qed

lemma sample_table_wf: "wf_table sample_table"
  by (simp add: wf_table_def keyed_def sample_table_def sample_entry_def maxEntries_def lit_def)

lemma simpleHash_a: "simpleHash (take 800 (lit ''a'')) = 97"
  by (simp add: simpleHash_def lit_def)

lemma sample_table_miss: "\<not> cached sample_table 97"
  by (simp add: cached_def sample_table_def sample_entry_def)

lemma trim_Goals: "trim (lit ''Goals.'') = lit ''Goals.''"
  by (rule trim_solid) (simp_all add: lit_def is_ws_def white_space_def)

lemma oldest_unique:
  assumes "x \<in> set es" "\<forall>e\<in>set es. updatedAt x \<le> updatedAt e"
    "e1 \<in> set es" "\<forall>e\<in>set es. e \<noteq> e1 \<longrightarrow> updatedAt e1 < updatedAt e"
  shows "x = e1"
  using assms by (metis not_less)

theorem summary_cache_capped_witness:
  "wf_table sample_table
   \<and> length sample_table = 12
   \<and> maybeUpdateSummary sample_table (lit ''a'')
        (Responded \<lparr>ok = True, status = 200,
           json = Some \<lparr>message_content = Some (lit ''Goals.''), response = None\<rparr>,
           body = None\<rparr>) 100
      = map sample_entry [2, 3, 4, 5, 6, 7, 8, 9, 10, 11, 12]
        @ [(97, \<lparr>sectionKey = 97, entry_text = lit ''Goals.'', updatedAt = 100\<rparr>)]"
proof -
  let ?fr = "Responded \<lparr>ok = True, status = 200,
           json = Some \<lparr>message_content = Some (lit ''Goals.''), response = None\<rparr>,
           body = None\<rparr>"
  let ?new = "\<lparr>sectionKey = 97, entry_text = lit ''Goals.'', updatedAt = 100\<rparr>"
  let ?m1 = "sample_table @ [(97 :: 32 word, ?new)]"
  let ?oldest = "last (sort_recent (object_values ?m1))"
  let ?e1 = "\<lparr>sectionKey = 1, entry_text = lit ''s'', updatedAt = 1\<rparr>"
  have len: "length sample_table = 12"
    by (simp add: sample_table_def)
  have sm: "(case ollamaChat ?fr of Inl e \<Rightarrow> [] | Inr t \<Rightarrow> t) = lit ''Goals.''"
    by (simp add: ollamaChat_def)
  have tr: "lit ''Goals.'' \<noteq> []"
    by (simp add: lit_def)
  from summary_cache_capped [OF sample_table_wf, of "lit ''a''" ?fr 100]
  have "maybeUpdateSummary sample_table (lit ''a'') ?fr 100
          = filter (\<lambda>(k, e). k \<noteq> sectionKey ?oldest) ?m1
        \<and> ?oldest \<in> set (object_values ?m1)
        \<and> (\<forall>e\<in>set (object_values ?m1). updatedAt ?oldest \<le> updatedAt e)"
    unfolding Let_def simpleHash_a sm trim_Goals
    using sample_table_miss tr len by blast
  then have r: "maybeUpdateSummary sample_table (lit ''a'') ?fr 100
          = filter (\<lambda>(k, e). k \<noteq> sectionKey ?oldest) ?m1"
    and o: "?oldest \<in> set (object_values ?m1)"
      "\<forall>e\<in>set (object_values ?m1). updatedAt ?oldest \<le> updatedAt e"
    by blast+
  have vals: "set (object_values ?m1) = snd ` set ?m1"
    by (rule set_object_values)
  have e1: "?e1 \<in> set (object_values ?m1)"
    unfolding vals by (simp add: sample_table_def sample_entry_def)
  have rest: "\<forall>e\<in>set (object_values ?m1). e \<noteq> ?e1 \<longrightarrow> updatedAt ?e1 < updatedAt e"
    unfolding vals by (simp add: sample_table_def sample_entry_def)
  have "?oldest = ?e1"
    using o e1 rest by (rule oldest_unique)
  then have "sectionKey ?oldest = 1"
    by (simp only: SummaryEntry.simps)
  with r have "maybeUpdateSummary sample_table (lit ''a'') ?fr 100
          = filter (\<lambda>(k, e). k \<noteq> 1) ?m1"
    by (simp only:)
  also have "\<dots> = map sample_entry [2, 3, 4, 5, 6, 7, 8, 9, 10, 11, 12] @ [(97, ?new)]"
    by (simp add: sample_table_def sample_entry_def)
  finally show ?thesis
    using sample_table_wf len by (intro conjI)
qed

section \<open>Coaching flows: blank model output\<close>

lemma answers_append [simp]: "answers (xs @ ys) = answers xs @ answers ys"
  by (induction xs rule: answers.induct) simp_all

lemma answers_deltas [simp]: "answers (map AnswerDelta ds) = []"
  by (induction ds) simp_all

lemma answers_summary_status [simp]: "answers (summary_status m s sfr t) = []"
  by (simp add: summary_status_def Let_def)

lemma answers_insert_at: "answers xs = [] \<Longrightarrow> answers (insert_at n xs ys) = answers ys"
proof -
  assume "answers xs = []"
  then have "answers (insert_at n xs ys) = answers (take n ys) @ answers (drop n ys)"
    by (simp add: insert_at_def)
  also have "\<dots> = answers (take n ys @ drop n ys)"
    by (simp only: answers_append)
  finally show ?thesis by simp
qed

lemma set_insert_at: "set (insert_at n xs ys) = set xs \<union> set ys"
proof -
  have "set (take n ys) \<union> set (drop n ys) = set ys"
    by (metis append_take_drop_id set_append)
  then show ?thesis
    by (auto simp: insert_at_def)
qed

lemma no_answer_in_summary_status: "CoachAnswer t \<notin> set (summary_status m s sfr tb)"
  by (simp add: summary_status_def Let_def)

text \<open>
  Claim C10. A model output that is empty or whitespace only makes the \<open>coach\<close> and
  \<open>coach:expand\<close> handlers reply with the fallback string, and makes the \<open>run-now\<close>
  handler and the alarm tick send the view exactly one \<open>coach:answer\<close>, carrying the
  fallback string, wherever the status of the summary update falls among their
  messages. The fallback string is not empty and output repair leaves it as it is; and
  no flow ever delivers an empty text.
\<close>

theorem blank_output_gives_fallback:
  assumes "trim out = []"
  shows "FALLBACK \<noteq> []
    \<and> (ollamaChat fr = Inr out \<longrightarrow>
         coach_handler fr = CoachText FALLBACK \<and> coach_expand_handler fr = CoachText FALLBACK)
    \<and> (ollamaChat fr = Inr out \<and> tab \<and> has_text (if has_text visible then visible else whole) \<longrightarrow>
         answers (alarm_tick ''writetank:tick'' False tab visible whole fr m sfr tab_then arrives)
         = [FALLBACK])
    \<and> (ollamaChatStream parse fr = (deltas, Inr res) \<and> out = concat deltas \<and> tab
          \<and> has_text (if has_text visible then visible else whole) \<longrightarrow>
         answers (fst (run_now parse tab visible whole fr m sfr tab_then arrives)) = [FALLBACK]
         \<and> snd (run_now parse tab visible whole fr m sfr tab_then arrives) = RunOk)
    \<and> coach_handler fr' \<noteq> CoachText [] \<and> coach_expand_handler fr' \<noteq> CoachText []
    \<and> CoachAnswer [] \<notin> set (alarm_tick name ps tab' visible' whole' fr' m' sfr' tab_then' arrives')
    \<and> CoachAnswer [] \<notin> set (fst (run_now parse' tab' visible' whole' fr' m' sfr' tab_then' arrives'))"
proof -
  have f: "finalOut out = FALLBACK"
    using assms by (rule finalOut_blank)
  have 1: "FALLBACK \<noteq> []"
    using FALLBACK_nonblank by simp
  have 2: "ollamaChat fr = Inr out \<longrightarrow>
         coach_handler fr = CoachText FALLBACK \<and> coach_expand_handler fr = CoachText FALLBACK"
    by (simp add: coach_handler_def coach_expand_handler_def f)
  have 3: "ollamaChat fr = Inr out \<and> tab \<and> has_text (if has_text visible then visible else whole) \<longrightarrow>
         answers (alarm_tick ''writetank:tick'' False tab visible whole fr m sfr tab_then arrives)
         = [FALLBACK]"
    by (simp add: alarm_tick_def Let_def f answers_insert_at)
  have 4: "ollamaChatStream parse fr = (deltas, Inr res) \<and> out = concat deltas \<and> tab
          \<and> has_text (if has_text visible then visible else whole) \<longrightarrow>
         answers (fst (run_now parse tab visible whole fr m sfr tab_then arrives)) = [FALLBACK]
         \<and> snd (run_now parse tab visible whole fr m sfr tab_then arrives) = RunOk"
    using f by (auto simp add: run_now_def Let_def answers_insert_at)
  have 5: "coach_handler fr' \<noteq> CoachText []" "coach_expand_handler fr' \<noteq> CoachText []"
    by (simp_all add: coach_handler_def coach_expand_handler_def finalOut_nonempty
          split: sum.splits)
  have 6: "CoachAnswer [] \<notin> set (alarm_tick name ps tab' visible' whole' fr' m' sfr' tab_then' arrives')"
    by (simp add: alarm_tick_def Let_def finalOut_nonempty set_insert_at
          no_answer_in_summary_status split: sum.splits)
  have 7: "CoachAnswer [] \<notin> set (fst (run_now parse' tab' visible' whole' fr' m' sfr' tab_then' arrives'))"
    by (simp add: run_now_def Let_def finalOut_nonempty image_iff set_insert_at
          no_answer_in_summary_status split: sum.splits prod.splits)
  from 1 2 3 4 5 6 7 show ?thesis
    by (intro conjI)
qed

lemma trim_two_spaces: "trim (lit ''  '') = []"
  by (simp add: trim_def lit_def is_ws_def white_space_def)

lemma blank_stream:
  "ollamaChatStream blank_parse
     (Responded \<lparr>ok = True, status = 200,
        json = Some \<lparr>message_content = Some (lit ''  ''), response = None\<rparr>,
        body = Some [content_line (lit ''  '') @ [newline]]\<rparr>)
   = ([lit ''  ''], Inr (lit ''  ''))"
proof -
  have "wire_deltas blank_parse (concat [content_line (lit ''  '') @ [newline]]) = [lit ''  '']"
    by (simp add: wire_deltas_def line_deltas_def blank_parse_def content_line_def delta_of_def
          lit_def newline_def trim_def is_ws_def white_space_def)
  then have "flush_remainder blank_parse
               (read_chunks blank_parse [content_line (lit ''  '') @ [newline]]
                  \<lparr>buffer = [], full = [], calls = []\<rparr>)
             = \<lparr>buffer = last (split_nl (concat [content_line (lit ''  '') @ [newline]])),
                full = lit ''  '', calls = [lit ''  '']\<rparr>"
    by (simp only: stream_state_wire) simp
  then show ?thesis
    by (simp add: ollamaChatStream_def Let_def)
qed

theorem blank_output_gives_fallback_witness:
  "trim (lit ''  '') = []
   \<and> ollamaChat (Responded \<lparr>ok = True, status = 200,
         json = Some \<lparr>message_content = Some (lit ''  ''), response = None\<rparr>,
         body = Some [content_line (lit ''  '') @ [newline]]\<rparr>) = Inr (lit ''  '')
   \<and> ollamaChatStream blank_parse
        (Responded \<lparr>ok = True, status = 200,
         json = Some \<lparr>message_content = Some (lit ''  ''), response = None\<rparr>,
         body = Some [content_line (lit ''  '') @ [newline]]\<rparr>) = ([lit ''  ''], Inr (lit ''  ''))
   \<and> coach_handler (Responded \<lparr>ok = True, status = 200,
         json = Some \<lparr>message_content = Some (lit ''  ''), response = None\<rparr>,
         body = Some [content_line (lit ''  '') @ [newline]]\<rparr>) = CoachText FALLBACK
   \<and> answers (alarm_tick ''writetank:tick'' False True (Some (lit ''abc'')) None
        (Responded \<lparr>ok = True, status = 200,
         json = Some \<lparr>message_content = Some (lit ''  ''), response = None\<rparr>,
         body = Some [content_line (lit ''  '') @ [newline]]\<rparr>)
        []
        (Responded \<lparr>ok = True, status = 200,
         json = Some \<lparr>message_content = Some (lit ''Goals.''), response = None\<rparr>,
         body = None\<rparr>) True 1) = [FALLBACK]
   \<and> answers (fst (run_now blank_parse True (Some (lit ''abc'')) None
        (Responded \<lparr>ok = True, status = 200,
         json = Some \<lparr>message_content = Some (lit ''  ''), response = None\<rparr>,
         body = Some [content_line (lit ''  '') @ [newline]]\<rparr>)
        []
        (Responded \<lparr>ok = True, status = 200,
         json = Some \<lparr>message_content = Some (lit ''Goals.''), response = None\<rparr>,
         body = None\<rparr>) True 1)) = [FALLBACK]"
proof -
  let ?fr = "Responded \<lparr>ok = True, status = 200,
         json = Some \<lparr>message_content = Some (lit ''  ''), response = None\<rparr>,
         body = Some [content_line (lit ''  '') @ [newline]]\<rparr>"
  let ?sfr = "Responded \<lparr>ok = True, status = 200,
         json = Some \<lparr>message_content = Some (lit ''Goals.''), response = None\<rparr>,
         body = None\<rparr>"
  have h: "trim (lit ''  '') = []"
    by (rule trim_two_spaces)
  have a: "ollamaChat ?fr = Inr (lit ''  '')"
    by (simp add: ollamaChat_def)
  note b = blank_stream
  have c: "has_text (if has_text (Some (lit ''abc'')) then Some (lit ''abc'') else None)"
    by (simp add: has_text_def lit_def)
  have d: "lit ''  '' = concat [lit ''  '']"
    by simp
  note inst = blank_output_gives_fallback [OF h, where fr = ?fr and parse = blank_parse
      and tab = True and visible = "Some (lit ''abc'')" and whole = None
      and deltas = "[lit ''  '']" and res = "lit ''  ''" and m = "[]" and sfr = ?sfr
      and tab_then = True and arrives = 1]
  from inst a have 1: "coach_handler ?fr = CoachText FALLBACK"
    by blast
  from inst a c have 2: "answers (alarm_tick ''writetank:tick'' False True (Some (lit ''abc'')) None
        ?fr [] ?sfr True 1) = [FALLBACK]"
    by blast
  from inst b c d have 3: "answers (fst (run_now blank_parse True (Some (lit ''abc'')) None
        ?fr [] ?sfr True 1)) = [FALLBACK]"
    by blast
  from h a b 1 2 3 show ?thesis
    by (intro conjI)
qed

end
